theory Spec2Isabelle
  imports Main "HOL-Library.Word" "HOL-Library.AList"
begin

unbundle bit_operations_syntax

section \<open>The event recorder of keymaster (package eventrecorder)\<close>

subsection \<open>Constants\<close>

text \<open>
  The mode bits of package \<open>syscall\<close> on Linux, and the constants of the source
  (lines 16 to 21). \<open>durationMonth\<close> is 31 days, here in whole seconds, the unit in which
  it is used (\<open>time.Now().Add(-durationMonth).Unix()\<close>).
\<close>

definition S_IRUSR :: "32 word" where "S_IRUSR = 0x100"
definition S_IWUSR :: "32 word" where "S_IWUSR = 0x80"
definition S_IRGRP :: "32 word" where "S_IRGRP = 0x20"
definition S_IWGRP :: "32 word" where "S_IWGRP = 0x10"
definition S_IROTH :: "32 word" where "S_IROTH = 0x4"
definition S_IWOTH :: "32 word" where "S_IWOTH = 0x2"
definition S_IXOTH :: "32 word" where "S_IXOTH = 0x1"

definition bufferLength :: nat where "bufferLength = 16"

definition filePerms :: "32 word" where
  "filePerms = S_IRUSR OR S_IWUSR OR S_IRGRP OR S_IROTH"

definition durationMonth :: int where
  "durationMonth = 3600 * 24 * 31"

subsection \<open>Lifetime quantization (recordEvent, lines 125 to 137)\<close>

text \<open>
  \<open>recordEvent\<close> first converts the duration, \<open>uint32(lifetime.Seconds() + 0.5)\<close>, and then
  rounds the \<open>uint32\<close> it got. The conversion is floating point and stays outside the
  model: \<open>quantizeLifetime\<close> is the integer part of the function, on the \<open>uint32\<close> value,
  with the wrap-around of \<open>uint32\<close> addition and multiplication.
\<close>

definition quantizeLifetime :: "32 word \<Rightarrow> 32 word" where
  "quantizeLifetime lifetimeSeconds =
     (if lifetimeSeconds \<ge> 3600 then
        (let hours = lifetimeSeconds div 3600;
             hoursPlus = (lifetimeSeconds + 60) div 3600
         in if hoursPlus > hours then hoursPlus * 3600 else lifetimeSeconds)
      else if lifetimeSeconds \<ge> 60 then
        (let minutes = lifetimeSeconds div 60;
             minutesPlus = (lifetimeSeconds + 1) div 60
         in if minutesPlus > minutes then minutesPlus * 60 else lifetimeSeconds)
      else lifetimeSeconds)"

text \<open>
  The rule of section 4.2 of the specification, in its own words, on unbounded naturals.
\<close>

definition spec_quantize :: "nat \<Rightarrow> nat" where
  "spec_quantize s =
     (if s \<ge> 3600 then
        (let h = s div 3600; hPlus = (s + 60) div 3600
         in if hPlus > h then hPlus * 3600 else s)
      else if s \<ge> 60 then
        (let m = s div 60; mPlus = (s + 1) div 60
         in if mPlus > m then mPlus * 60 else s)
      else s)"

subsection \<open>Data model\<close>

text \<open>
  \<open>EventType\<close> is the exported record of one issuance. Its declaration is in a file
  of the package that is not among the sources at hand; the fields and their types are
  those of the composite literal in \<open>recordEvent\<close> (lines 144 to 149).
\<close>

record EventType =
  CreateTime :: "64 word"
  LifetimeSeconds :: "32 word"
  Ssh :: bool
  X509 :: bool

text \<open>
  A pointer \<open>*eventType\<close> is an address or nil (\<open>None\<close>). The nodes live in a heap
  \<open>cells\<close>, a total function from addresses to nodes, of which the addresses below
  \<open>nextAddr\<close> are allocated: \<open>&eventType{...}\<close> takes the address \<open>nextAddr\<close>. A non-nil
  pointer of the program always holds an allocated address, so reading through it is total,
  as in Go.
\<close>

type_synonym addr = nat

record eventType =
  EventType :: EventType
  older :: "addr option"
  newer :: "addr option"

record eventsListType =
  newest :: "addr option"
  oldest :: "addr option"

text \<open>
  \<open>EventsMap\<close> is \<open>map[string][]EventType\<close> and \<open>sr.eventsMap\<close> is
  \<open>map[string]*eventsListType\<close>. Both are association lists with \<open>map_of\<close> as the
  lookup and \<open>AList.update\<close> as the assignment \<open>m[k] = v\<close>; the order of the list is the
  order in which one \<open>range\<close> loop visits the keys, which Go leaves open. Each
  \<open>*eventsListType\<close> is reachable from its map entry only, so the entry holds the struct
  itself and a write through the pointer is a write to the entry.
\<close>

type_synonym EventsMap = "(string \<times> EventType list) list"

record Events =
  ComputeTime :: int
  Events :: EventsMap

datatype error = ErrNotExist | ErrPermission | ErrDecode

datatype panic = IndexOutOfRange

text \<open>
  The file system, as far as the recorder touches it. A path holds no file, or cannot be
  opened or created (\<open>Denied\<close>), or holds a file with its permission bits and content.
  The content is either the gob encoding of an \<open>EventsMap\<close> or something the decoder
  rejects. Package \<open>encoding/gob\<close> is external: it is modelled as an injective encoding.
\<close>

datatype fileData = Gob EventsMap | Garbage

datatype fileState = NotExist | Denied | File "32 word" fileData

type_synonym filesystem = "string \<Rightarrow> fileState"

definition os_Open :: "filesystem \<Rightarrow> string \<Rightarrow> error + fileData" where
  "os_Open fs name =
     (case fs name of
        NotExist \<Rightarrow> Inl ErrNotExist
      | Denied \<Rightarrow> Inl ErrPermission
      | File perms d \<Rightarrow> Inr d)"

definition os_IsNotExist :: "error \<Rightarrow> bool" where
  "os_IsNotExist err = (err = ErrNotExist)"

definition gob_Encode :: "EventsMap \<Rightarrow> fileData" where
  "gob_Encode m = Gob m"

definition gob_Decode :: "fileData \<Rightarrow> error + EventsMap" where
  "gob_Decode d = (case d of Gob m \<Rightarrow> Inr m | Garbage \<Rightarrow> Inl ErrDecode)"

text \<open>
  \<open>fsutil.CreateRenamingWriter(filename, perms)\<close> is external too: what is written goes
  to a temporary file created with \<open>perms\<close>, which \<open>Close\<close> renames over \<open>filename\<close>.
  \<open>writeAndClose\<close> is the state after \<open>Flush\<close> and \<open>Close\<close>.
\<close>

definition fsutil_CreateRenamingWriter ::
    "filesystem \<Rightarrow> string \<Rightarrow> 32 word \<Rightarrow> error + (string \<times> 32 word)" where
  "fsutil_CreateRenamingWriter fs name perms =
     (case fs name of Denied \<Rightarrow> Inl ErrPermission | _ \<Rightarrow> Inr (name, perms))"

definition writeAndClose :: "filesystem \<Rightarrow> string \<times> 32 word \<Rightarrow> fileData \<Rightarrow> filesystem" where
  "writeAndClose fs file d = fs (fst file := File (snd file) d)"

text \<open>
  The struct \<open>EventRecorder\<close> with the heap of the nodes its map reaches. The channels
  are the messages of \<open>eventLoop\<close> below; the logger is the list \<open>logged\<close> there.
\<close>

record EventRecorder =
  filename :: string
  eventsMap :: "(string \<times> eventsListType) list"
  cells :: "addr \<Rightarrow> eventType"
  nextAddr :: addr

subsection \<open>recordEvent and loadEvents\<close>

text \<open>
  Lines 143 to 158 of \<open>recordEvent\<close> and lines 64 to 74 of \<open>loadEvents\<close> are the same
  statements: allocate a node whose \<open>older\<close> is the present \<open>newest\<close>, make it the
  \<open>newer\<close> of that node if there is one, make it \<open>newest\<close>, and \<open>oldest\<close> too if there
  was none.
\<close>

definition linkNewest ::
    "EventType \<Rightarrow> eventsListType \<times> (addr \<Rightarrow> eventType) \<times> addr
       \<Rightarrow> eventsListType \<times> (addr \<Rightarrow> eventType) \<times> addr" where
  "linkNewest ev st =
     (case st of (eventsList, c, n) \<Rightarrow>
        (let event = n;
             c1 = c (event := \<lparr>EventType = ev, older = newest eventsList, newer = None\<rparr>);
             c2 = (case newest eventsList of
                     None \<Rightarrow> c1
                   | Some p \<Rightarrow> c1 (p := (c1 p) \<lparr>newer := Some event\<rparr>));
             l1 = eventsList \<lparr>newest := Some event\<rparr>;
             l2 = (if oldest l1 = None then l1 \<lparr>oldest := Some event\<rparr> else l1)
         in (l2, c2, Suc n)))"

text \<open>
  \<open>lifetimeSeconds0\<close> is the value of \<open>uint32(lifetime.Seconds() + 0.5)\<close> and \<open>now\<close> is
  \<open>time.Now().Unix()\<close>.
\<close>

definition recordEvent ::
    "string \<Rightarrow> 32 word \<Rightarrow> bool \<Rightarrow> bool \<Rightarrow> int
       \<Rightarrow> 'a EventRecorder_scheme \<Rightarrow> 'a EventRecorder_scheme" where
  "recordEvent username lifetimeSeconds0 ssh x509 now sr =
     (let lifetimeSeconds = quantizeLifetime lifetimeSeconds0;
          (eventsList, em) =
             (case map_of (eventsMap sr) username of
                None \<Rightarrow> (\<lparr>newest = None, oldest = None\<rparr>,
                          AList.update username \<lparr>newest = None, oldest = None\<rparr> (eventsMap sr))
              | Some l \<Rightarrow> (l, eventsMap sr));
          (eventsList', c, n) =
             linkNewest \<lparr>CreateTime = word_of_int now, LifetimeSeconds = lifetimeSeconds,
                          Ssh = ssh, X509 = x509\<rparr>
                        (eventsList, cells sr, nextAddr sr)
      in sr \<lparr>eventsMap := AList.update username eventsList' em, cells := c, nextAddr := n\<rparr>)"

fun loadSlice ::
    "64 word \<Rightarrow> EventType list \<Rightarrow> eventsListType \<times> (addr \<Rightarrow> eventType) \<times> addr
       \<Rightarrow> eventsListType \<times> (addr \<Rightarrow> eventType) \<times> addr" where
  "loadSlice minCreateTime [] st = st"
| "loadSlice minCreateTime (savedEvent # rest) st =
     (if CreateTime savedEvent < minCreateTime then loadSlice minCreateTime rest st
      else loadSlice minCreateTime rest (linkNewest savedEvent st))"

fun loadUsers ::
    "64 word \<Rightarrow> EventsMap \<Rightarrow> (string \<times> eventsListType) list \<times> (addr \<Rightarrow> eventType) \<times> addr
       \<Rightarrow> (string \<times> eventsListType) list \<times> (addr \<Rightarrow> eventType) \<times> addr" where
  "loadUsers minCreateTime [] st = st"
| "loadUsers minCreateTime ((username, eventsSlice) # rest) (em, c, n) =
     (case loadSlice minCreateTime eventsSlice (\<lparr>newest = None, oldest = None\<rparr>, c, n) of
        (eventsList, c', n') \<Rightarrow>
          loadUsers minCreateTime rest (AList.update username eventsList em, c', n'))"

text \<open>
  \<open>loadEvents\<close> returns a map and an error. The map is \<open>None\<close> where the source returns
  the nil map. The nodes are allocated in the heap \<open>(c, n)\<close> it is given.
\<close>

definition loadEvents ::
    "filesystem \<Rightarrow> string \<Rightarrow> int \<Rightarrow> (addr \<Rightarrow> eventType) \<times> addr
       \<Rightarrow> ((string \<times> eventsListType) list option \<times> error option) \<times> (addr \<Rightarrow> eventType) \<times> addr" where
  "loadEvents fs name now heap =
     (case os_Open fs name of
        Inl err \<Rightarrow> ((Some [], Some err), heap)
      | Inr file \<Rightarrow>
          (case gob_Decode file of
             Inl err \<Rightarrow> ((None, Some err), heap)
           | Inr events \<Rightarrow>
               (let minCreateTime = word_of_int (now - durationMonth)
                in case loadUsers minCreateTime events ([], heap) of
                     (em, heap') \<Rightarrow> ((Some em, None), heap'))))"

subsection \<open>getEventsList, saveEvents and expireOldEvents\<close>

text \<open>
  The inner loop of \<open>getEventsList\<close> (lines 169 to 171) follows \<open>older\<close> until nil. On a
  cyclic chain it does not return: the value is \<open>None\<close> then.
\<close>

partial_function (option) walkOlder ::
    "(addr \<Rightarrow> eventType) \<Rightarrow> addr option \<Rightarrow> EventType list \<Rightarrow> EventType list option" where
  "walkOlder c event events =
     (case event of
        None \<Rightarrow> Some events
      | Some a \<Rightarrow> walkOlder c (older (c a)) (events @ [EventType (c a)]))"

fun buildEventsMap ::
    "(addr \<Rightarrow> eventType) \<Rightarrow> (string \<times> eventsListType) list \<Rightarrow> EventsMap \<Rightarrow> EventsMap option" where
  "buildEventsMap c [] em = Some em"
| "buildEventsMap c ((username, eventsList) # rest) em =
     (case walkOlder c (newest eventsList) [] of
        None \<Rightarrow> None
      | Some events \<Rightarrow> buildEventsMap c rest (AList.update username events em))"

definition saveEvents :: "string \<Rightarrow> EventsMap \<Rightarrow> filesystem \<Rightarrow> error option \<times> filesystem" where
  "saveEvents name em fs =
     (case fsutil_CreateRenamingWriter fs name filePerms of
        Inl err \<Rightarrow> (Some err, fs)
      | Inr file \<Rightarrow> (None, writeAndClose fs file (gob_Encode em)))"

text \<open>
  The inner loop of \<open>expireOldEvents\<close> (lines 197 to 208) for one list. The state is the
  list, the heap and \<open>changed\<close>; \<open>event\<close> is the loop variable, and the step of the loop
  reads \<open>event.newer\<close> after the body. It need not return on a cyclic chain.
\<close>

partial_function (option) expireList ::
    "64 word \<Rightarrow> addr option \<Rightarrow> eventsListType \<times> (addr \<Rightarrow> eventType) \<times> bool
       \<Rightarrow> (eventsListType \<times> (addr \<Rightarrow> eventType) \<times> bool) option" where
  "expireList minCreateTime event st =
     (case event of
        None \<Rightarrow> Some st
      | Some a \<Rightarrow>
          (case st of (eventsList, c, changed) \<Rightarrow>
             if CreateTime (EventType (c a)) \<ge> minCreateTime then Some st
             else
               (let l1 = eventsList \<lparr>oldest := newer (c a)\<rparr>;
                    l2 = (case newer (c a) of None \<Rightarrow> l1 \<lparr>newest := None\<rparr> | Some p \<Rightarrow> l1);
                    c2 = (case newer (c a) of
                            None \<Rightarrow> c
                          | Some p \<Rightarrow> c (p := (c p) \<lparr>older := None\<rparr>))
                in expireList minCreateTime (newer (c2 a)) (l2, c2, True))))"

fun expireUsers ::
    "64 word \<Rightarrow> (string \<times> eventsListType) list \<Rightarrow> (addr \<Rightarrow> eventType) \<Rightarrow> bool
       \<Rightarrow> ((string \<times> eventsListType) list \<times> (addr \<Rightarrow> eventType) \<times> bool) option" where
  "expireUsers minCreateTime [] c changed = Some ([], c, changed)"
| "expireUsers minCreateTime ((username, eventsList) # rest) c changed =
     (case expireList minCreateTime (oldest eventsList) (eventsList, c, changed) of
        None \<Rightarrow> None
      | Some (eventsList', c', changed') \<Rightarrow>
          (case expireUsers minCreateTime rest c' changed' of
             None \<Rightarrow> None
           | Some (rest', c'', changed'') \<Rightarrow> Some ((username, eventsList') # rest', c'', changed'')))"

text \<open>
  \<open>expireOldEventsAt\<close> is \<open>expireOldEvents\<close> from line 195 on, with the cutoff of line 194
  as an argument; \<open>expireOldEvents\<close> computes the cutoff from the clock.
\<close>

definition expireOldEventsAt ::
    "64 word \<Rightarrow> 'a EventRecorder_scheme \<Rightarrow> (bool \<times> 'a EventRecorder_scheme) option" where
  "expireOldEventsAt minCreateTime sr =
     (case expireUsers minCreateTime (eventsMap sr) (cells sr) False of
        None \<Rightarrow> None
      | Some (em, c, changed) \<Rightarrow> Some (changed, sr \<lparr>eventsMap := em, cells := c\<rparr>))"

definition expireOldEvents ::
    "int \<Rightarrow> 'a EventRecorder_scheme \<Rightarrow> (bool \<times> 'a EventRecorder_scheme) option" where
  "expireOldEvents now sr = expireOldEventsAt (word_of_int (now - durationMonth)) sr"

subsection \<open>newEventRecorder and eventLoop\<close>

text \<open>
  The state of the goroutine \<open>eventLoop\<close>: the recorder, the local variable
  \<open>lastEvents\<close> (a pointer to an \<open>Events\<close> struct, in a heap \<open>snapshots\<close> of its own, where
  \<open>&Events{...}\<close> takes the address \<open>nextSnapshot\<close>), the two timers (the duration they
  are armed with, in seconds, or \<open>None\<close> when stopped or consumed), the file system, the
  lines given to the logger, and the snapshots that were delivered on a reply channel.
  A reply is the struct \<open>lastEvents\<close> points to, whose map is shared with the cached one;
  \<open>replies\<close> records the pointer.
\<close>

record loopState = EventRecorder +
  lastEvents :: "addr option"
  snapshots :: "addr \<Rightarrow> Events"
  nextSnapshot :: addr
  hourlyTimer :: "nat option"
  saveTimer :: "nat option"
  files :: filesystem
  logged :: "error list"
  replies :: "addr list"

text \<open>
  What one iteration reads from outside: the clock (\<open>time.Now().Unix()\<close>), for a
  certificate the value of \<open>uint32(lifetime.Seconds() + 0.5)\<close> of its remaining lifetime, and
  the duration \<open>time.Since(startTime)\<close> of a rebuild.
\<close>

record reading =
  unixNow :: int
  lifetimeSecs :: "32 word"
  sinceStart :: int

record sshCertificate =
  ValidPrincipals :: "string list"
  ValidBefore :: "64 word"

record x509Certificate =
  CommonName :: string
  NotAfter :: int

text \<open>
  The five cases of the \<open>select\<close>. \<open>RequestEvents ready\<close> is a request whose reply channel
  can (or cannot) take a value at once.
\<close>

datatype message =
    SshCert sshCertificate
  | X509Cert x509Certificate
  | HourlyTimer
  | RequestEvents bool
  | SaveTimer

definition getEventsList ::
    "int \<Rightarrow> 'a loopState_scheme \<Rightarrow> (addr \<times> 'a loopState_scheme) option" where
  "getEventsList elapsed s =
     (case lastEvents s of
        Some p \<Rightarrow> Some (p, s)
      | None \<Rightarrow>
          (case buildEventsMap (cells s) (eventsMap s) [] of
             None \<Rightarrow> None
           | Some em \<Rightarrow>
               (let p = nextSnapshot s
                in Some (p, s \<lparr>lastEvents := Some p,
                               snapshots := (snapshots s) (p := \<lparr>ComputeTime = elapsed, Events = em\<rparr>),
                               nextSnapshot := Suc p\<rparr>))))"

text \<open>
  \<open>newEventRecorder\<close> up to the \<open>go\<close> statement: the result is the error, or the state
  in which \<open>eventLoop\<close> starts. No node is allocated yet (\<open>emptyCells\<close>, with \<open>nextAddr\<close> 0). A nil map is read as the empty map; \<open>loadEvents\<close> returns
  it with a decoding error only, which is returned before the map is used.
\<close>

definition emptyCells :: "addr \<Rightarrow> eventType" where
  "emptyCells = (\<lambda>_. \<lparr>EventType = \<lparr>CreateTime = 0, LifetimeSeconds = 0, Ssh = False, X509 = False\<rparr>,
                      older = None, newer = None\<rparr>)"

definition newEventRecorder :: "filesystem \<Rightarrow> string \<Rightarrow> int \<Rightarrow> error + loopState" where
  "newEventRecorder fs name now =
     (case loadEvents fs name now (emptyCells, 0) of
        ((em, err), c, n) \<Rightarrow>
          (if err \<noteq> None \<and> \<not> os_IsNotExist (case err of Some e \<Rightarrow> e | None \<Rightarrow> ErrNotExist)
           then Inl (case err of Some e \<Rightarrow> e | None \<Rightarrow> ErrNotExist)
           else Inr \<lparr>filename = name,
                     eventsMap = (case em of Some m \<Rightarrow> m | None \<Rightarrow> []),
                     cells = c, nextAddr = n,
                     lastEvents = None,
                     snapshots = (\<lambda>_. \<lparr>ComputeTime = 0, Events = []\<rparr>), nextSnapshot = 0,
                     hourlyTimer = None, saveTimer = None,
                     files = fs, logged = [], replies = []\<rparr>))"

text \<open>Lines 84 to 88: the first snapshot is built before the loop is entered.\<close>

definition eventLoop_start :: "int \<Rightarrow> loopState \<Rightarrow> loopState option" where
  "eventLoop_start elapsed s =
     (case getEventsList elapsed (s \<lparr>lastEvents := None\<rparr>) of
        None \<Rightarrow> None
      | Some (p, s1) \<Rightarrow> Some (s1 \<lparr>hourlyTimer := Some 3600, saveTimer := None\<rparr>))"

text \<open>
  One iteration of the loop (lines 90 to 118). \<open>None\<close>: the iteration does not return;
  \<open>Inl\<close>: it panics, which ends the process.
\<close>

definition eventLoop_step :: "reading \<Rightarrow> message \<Rightarrow> loopState \<Rightarrow> (panic + loopState) option" where
  "eventLoop_step r msg s =
     (case msg of
        SshCert cert \<Rightarrow>
          (let s1 = s \<lparr>saveTimer := Some 5\<rparr>;
               s2 = s1 \<lparr>lastEvents := None\<rparr>
           in case ValidPrincipals cert of
                [] \<Rightarrow> Some (Inl IndexOutOfRange)
              | username # _ \<Rightarrow>
                  Some (Inr (recordEvent username (lifetimeSecs r) True False (unixNow r) s2)))
      | X509Cert cert \<Rightarrow>
          (let s1 = s \<lparr>saveTimer := Some 5\<rparr>;
               s2 = s1 \<lparr>lastEvents := None\<rparr>
           in Some (Inr (recordEvent (CommonName cert) (lifetimeSecs r) False True (unixNow r) s2)))
      | HourlyTimer \<Rightarrow>
          (let s1 = s \<lparr>hourlyTimer := Some 3600\<rparr>
           in case expireOldEvents (unixNow r) s1 of
                None \<Rightarrow> None
              | Some (changed, s2) \<Rightarrow>
                  if changed then Some (Inr (s2 \<lparr>saveTimer := Some 5, lastEvents := None\<rparr>))
                  else Some (Inr s2))
      | RequestEvents ready \<Rightarrow>
          (case getEventsList (sinceStart r) s of
             None \<Rightarrow> None
           | Some (p, s1) \<Rightarrow>
               if ready then Some (Inr (s1 \<lparr>replies := replies s1 @ [p]\<rparr>))
               else Some (Inr s1))
      | SaveTimer \<Rightarrow>
          (case getEventsList (sinceStart r) (s \<lparr>saveTimer := None\<rparr>) of
             None \<Rightarrow> None
           | Some (p, s1) \<Rightarrow>
               (case saveEvents (filename s1) (Events (snapshots s1 p)) (files s1) of
                  (Some err, fs) \<Rightarrow> Some (Inr (s1 \<lparr>files := fs, logged := logged s1 @ [err]\<rparr>))
                | (None, fs) \<Rightarrow> Some (Inr (s1 \<lparr>files := fs\<rparr>)))))"

text \<open>
  A run of the loop over the messages it receives, each with its readings. The loop has
  no exit: a run ends when a step panics or does not return.
\<close>

fun eventLoop_run :: "(reading \<times> message) list \<Rightarrow> loopState \<Rightarrow> (panic + loopState) option" where
  "eventLoop_run [] s = Some (Inr s)"
| "eventLoop_run ((r, msg) # rest) s =
     (case eventLoop_step r msg s of
        None \<Rightarrow> None
      | Some (Inl p) \<Rightarrow> Some (Inl p)
      | Some (Inr s') \<Rightarrow> eventLoop_run rest s')"

subsection \<open>Well-formed histories\<close>

text \<open>
  \<open>path f c p as q\<close>: following the pointer field \<open>f\<close> from \<open>p\<close> visits the addresses
  \<open>as\<close>, in this order, and arrives at \<open>q\<close>. A \<open>chain\<close> is a path that arrives at nil.
\<close>

fun path ::
    "(eventType \<Rightarrow> addr option) \<Rightarrow> (addr \<Rightarrow> eventType) \<Rightarrow> addr option \<Rightarrow> addr list
       \<Rightarrow> addr option \<Rightarrow> bool" where
  "path f c p [] q = (p = q)"
| "path f c p (a # as) q = (p = Some a \<and> path f c (f (c a)) as q)"

definition chain ::
    "(eventType \<Rightarrow> addr option) \<Rightarrow> (addr \<Rightarrow> eventType) \<Rightarrow> addr option \<Rightarrow> addr list \<Rightarrow> bool" where
  "chain f c p as = path f c p as None"

text \<open>
  \<open>linked c l as\<close>: the list \<open>l\<close> is the doubly linked chain of the nodes \<open>as\<close>, oldest
  first. From \<open>oldest\<close> the \<open>newer\<close> pointers visit \<open>as\<close> and end in nil, from \<open>newest\<close> the
  \<open>older\<close> pointers visit \<open>as\<close> backwards and end in nil. \<open>records\<close> are the issuance
  records of the nodes.
\<close>

definition linked :: "(addr \<Rightarrow> eventType) \<Rightarrow> eventsListType \<Rightarrow> addr list \<Rightarrow> bool" where
  "linked c l as = (chain newer c (oldest l) as \<and> chain older c (newest l) (rev as))"

definition records :: "(addr \<Rightarrow> eventType) \<Rightarrow> addr list \<Rightarrow> EventType list" where
  "records c as = map (\<lambda>a. EventType (c a)) as"

text \<open>
  \<open>wellFormed sr L\<close>: the keys of the map are distinct, the list of every user \<open>u\<close> is the
  chain of the nodes \<open>L u\<close> (no nodes for a user without an entry), the chains of two users
  share no node, and every node of a chain is allocated.
\<close>

definition wellFormed :: "'a EventRecorder_scheme \<Rightarrow> (string \<Rightarrow> addr list) \<Rightarrow> bool" where
  "wellFormed sr L =
     (distinct (map fst (eventsMap sr)) \<and>
      (\<forall>u. case map_of (eventsMap sr) u of
              None \<Rightarrow> L u = []
            | Some l \<Rightarrow> linked (cells sr) l (L u)) \<and>
      (\<forall>u v. u \<noteq> v \<longrightarrow> set (L u) \<inter> set (L v) = {}) \<and>
      (\<forall>u. \<forall>a \<in> set (L u). a < nextAddr sr))"

subsection \<open>Notions for the statements\<close>

text \<open>
  \<open>listOf em u\<close> is the list of user \<open>u\<close> as \<open>recordEvent\<close> reads it (lines 138 to 142):
  the entry of the map, or the empty list when there is none. \<open>makeEvent\<close> is the record
  \<open>recordEvent\<close> stores (lines 144 to 149).
\<close>

definition listOf :: "(string \<times> eventsListType) list \<Rightarrow> string \<Rightarrow> eventsListType" where
  "listOf em u = (case map_of em u of None \<Rightarrow> \<lparr>newest = None, oldest = None\<rparr> | Some l \<Rightarrow> l)"

definition makeEvent :: "32 word \<Rightarrow> bool \<Rightarrow> bool \<Rightarrow> int \<Rightarrow> EventType" where
  "makeEvent lifetimeSeconds0 ssh x509 now =
     \<lparr>CreateTime = word_of_int now, LifetimeSeconds = quantizeLifetime lifetimeSeconds0,
      Ssh = ssh, X509 = x509\<rparr>"

text \<open>
  A sequence of calls of \<open>recordEvent\<close> for one user, each with its lifetime, its two flags
  and the clock, and the records these calls store, in the order of the calls.
\<close>

fun recordEvents ::
    "string \<Rightarrow> (32 word \<times> bool \<times> bool \<times> int) list \<Rightarrow> 'a EventRecorder_scheme
       \<Rightarrow> 'a EventRecorder_scheme" where
  "recordEvents username [] sr = sr"
| "recordEvents username ((ls, ssh, x509, now) # rest) sr =
     recordEvents username rest (recordEvent username ls ssh x509 now sr)"

definition recorded :: "(32 word \<times> bool \<times> bool \<times> int) list \<Rightarrow> EventType list" where
  "recorded ops = map (\<lambda>(ls, ssh, x509, now). makeEvent ls ssh x509 now) ops"

text \<open>
  A node is \<open>stale\<close> for a cutoff when its \<open>CreateTime\<close> is strictly before it, the
  negation of the test of line 198; \<open>fresh\<close> keeps the nodes that are not.
\<close>

definition stale :: "64 word \<Rightarrow> (addr \<Rightarrow> eventType) \<Rightarrow> addr \<Rightarrow> bool" where
  "stale m c a = (CreateTime (EventType (c a)) < m)"

definition fresh :: "64 word \<Rightarrow> (addr \<Rightarrow> eventType) \<Rightarrow> addr list \<Rightarrow> addr list" where
  "fresh m c as = filter (\<lambda>a. m \<le> CreateTime (EventType (c a))) as"

text \<open>
  Two recorders for examples: the one with no user and no node, and the one in which
  three certificates of one user were recorded at the times 10, 20 and 30.
\<close>

definition emptyRecorder :: "string \<Rightarrow> EventRecorder" where
  "emptyRecorder name = \<lparr>filename = name, eventsMap = [], cells = emptyCells, nextAddr = 0\<rparr>"

definition threeEvents :: EventRecorder where
  "threeEvents = recordEvents ''alice'' [(60, True, False, 10), (60, True, False, 20), (60, False, True, 30)]
                   (emptyRecorder ''events'')"

text \<open>
  The round trip through the file: what the save timer writes (the map of the snapshot,
  lines 114 and 115), read back by \<open>loadEvents\<close> at the time \<open>now\<close> into a heap with no
  node. \<open>None\<close>: the snapshot is not built or the file is not written.
\<close>

definition saveThenLoad ::
    "int \<Rightarrow> filesystem \<Rightarrow> 'a EventRecorder_scheme
       \<Rightarrow> (((string \<times> eventsListType) list option \<times> error option) \<times> (addr \<Rightarrow> eventType) \<times> addr) option" where
  "saveThenLoad now fs sr =
     (case buildEventsMap (cells sr) (eventsMap sr) [] of
        None \<Rightarrow> None
      | Some em \<Rightarrow>
          (case saveEvents (filename sr) em fs of
             (Some err, fs') \<Rightarrow> None
           | (None, fs') \<Rightarrow> Some (loadEvents fs' (filename sr) now (emptyCells, 0))))"

section \<open>The LDAP password authenticator (package ldap)\<close>

text \<open>
  The authenticator calls code that is not its own: the LDAP check, the Argon2 hashing,
  \<open>fmt.Sprintf\<close>, the clock and the methods of the storage interface. They are the fields
  of \<open>authEnv\<close>, so that every statement below holds whatever they answer. An error value
  is of a type \<open>'e\<close> left open, \<open>None\<close> being nil; the storage is a value of a type \<open>'st\<close>
  left open, which its methods may change. \<open>pa.rootCAs\<close> is passed through to the LDAP
  check unchanged and is part of that function here. Times are in nanoseconds.
\<close>

record ('e, 'st) authEnv =
  CheckLDAPUserPassword :: "string \<Rightarrow> string \<Rightarrow> string \<Rightarrow> nat \<Rightarrow> bool \<times> 'e option"
  Argon2MakeNewHash :: "string \<Rightarrow> string \<times> 'e option"
  Argon2CompareHashAndPassword :: "string \<Rightarrow> string \<Rightarrow> 'e option"
  Sprintf :: "string \<Rightarrow> string \<Rightarrow> string"
  timeNow :: int
  UpsertSigned :: "'st \<Rightarrow> string \<Rightarrow> int \<Rightarrow> int \<Rightarrow> string \<Rightarrow> 'e option \<times> 'st"
  GetSigned :: "'st \<Rightarrow> string \<Rightarrow> int \<Rightarrow> (bool \<times> string \<times> 'e option) \<times> 'st"
  DeleteSigned :: "'st \<Rightarrow> string \<Rightarrow> int \<Rightarrow> 'e option \<times> 'st"

record cacheCredentialEntry =
  Hash :: string
  Expiration :: int

text \<open>
  The struct \<open>PasswordAuthenticator\<close>, as \<open>newAuthenticator\<close> fills it. \<open>logger\<close> tells
  whether \<open>pa.logger\<close> is not nil, \<open>debugLog\<close> holds the lines given to it (level and
  format string); \<open>storage\<close> is \<open>None\<close> for the nil interface.
\<close>

record 'st PasswordAuthenticator =
  ldapURL :: "string list"
  bindPattern :: "string list"
  timeoutSecs :: nat
  logger :: bool
  expirationDuration :: int
  storage :: "'st option"
  cachedCredentials :: "string \<rightharpoonup> cacheCredentialEntry"
  debugLog :: "(nat \<times> string) list"

definition passwordDataType :: int where
  "passwordDataType = 1"

definition convertToBindDN :: "('e, 'st) authEnv \<Rightarrow> string \<Rightarrow> string \<Rightarrow> string" where
  "convertToBindDN env username bind_pattern = Sprintf env bind_pattern username"

definition Debugf :: "nat \<Rightarrow> string \<Rightarrow> 'st PasswordAuthenticator \<Rightarrow> 'st PasswordAuthenticator" where
  "Debugf level line pa = pa \<lparr>debugLog := debugLog pa @ [(level, line)]\<rparr>"

definition updateOrDeletePasswordHash ::
    "('e, 'st) authEnv \<Rightarrow> bool \<Rightarrow> string \<Rightarrow> string \<Rightarrow> 'st PasswordAuthenticator
       \<Rightarrow> 'e option \<times> 'st PasswordAuthenticator" where
  "updateOrDeletePasswordHash env valid username password pa =
     (if valid then
        (case Argon2MakeNewHash env password of
           (hash, err) \<Rightarrow>
             if err \<noteq> None then
               (None, if logger pa
                      then Debugf 0 ''Failure making new hash for password for user %s'' pa
                      else pa)
             else
               (let expiration = timeNow env + expirationDuration pa
                in case storage pa of
                     None \<Rightarrow>
                       (None, pa \<lparr>cachedCredentials := (cachedCredentials pa)
                                   (username \<mapsto> \<lparr>Hash = hash, Expiration = expiration\<rparr>)\<rparr>)
                   | Some st \<Rightarrow>
                       (case UpsertSigned env st username passwordDataType
                               (expiration div 1000000000) hash of
                          (err', st') \<Rightarrow>
                            (None,
                             (if err' \<noteq> None \<and> logger pa
                              then Debugf 0 ''Failure inserting password into db for user %s''
                              else (\<lambda>x. x)) (pa \<lparr>storage := Some st'\<rparr>)))))
      else
        (case storage pa of
           None \<Rightarrow>
             (case cachedCredentials pa username of
                Some cachedCred \<Rightarrow>
                  if Argon2CompareHashAndPassword env (Hash cachedCred) password = None
                  then (None, pa \<lparr>cachedCredentials := (cachedCredentials pa) (username := None)\<rparr>)
                  else (None, pa)
              | None \<Rightarrow> (None, pa))
         | Some st \<Rightarrow>
             (case GetSigned env st username passwordDataType of
                ((ok, hash, err), st') \<Rightarrow>
                  if err \<noteq> None then (None, pa \<lparr>storage := Some st'\<rparr>)
                  else if ok \<and> Argon2CompareHashAndPassword env hash password = None
                  then (None, pa \<lparr>storage := Some (snd (DeleteSigned env st' username passwordDataType))\<rparr>)
                  else (None, pa \<lparr>storage := Some st'\<rparr>))))"

text \<open>
  The two loops of \<open>passwordAuthenticate\<close> (lines 96 to 113). The result is \<open>Some\<close> of
  the returned pair when the loop body returns, and \<open>None\<close> when the loop ends.
\<close>

fun bindPatternLoop ::
    "('e, 'st) authEnv \<Rightarrow> string \<Rightarrow> string \<Rightarrow> string \<Rightarrow> string list \<Rightarrow> 'st PasswordAuthenticator
       \<Rightarrow> (bool \<times> 'e option) option \<times> 'st PasswordAuthenticator" where
  "bindPatternLoop env username password u [] pa = (None, pa)"
| "bindPatternLoop env username password u (pat # rest) pa =
     (let bindDN = convertToBindDN env username pat
      in case CheckLDAPUserPassword env u bindDN password (timeoutSecs pa) of
           (valid, err) \<Rightarrow>
             if err \<noteq> None then
               bindPatternLoop env username password u rest
                 (if logger pa then Debugf 1 ''Error checking LDAP user password url= %s'' pa else pa)
             else
               (case updateOrDeletePasswordHash env valid username password pa of
                  (err', pa') \<Rightarrow>
                    (Some (valid, None),
                     if err' \<noteq> None \<and> logger pa'
                     then Debugf 0 ''Updating local password hash for user %s'' pa'
                     else pa')))"

fun ldapURLLoop ::
    "('e, 'st) authEnv \<Rightarrow> string \<Rightarrow> string \<Rightarrow> string list \<Rightarrow> 'st PasswordAuthenticator
       \<Rightarrow> (bool \<times> 'e option) option \<times> 'st PasswordAuthenticator" where
  "ldapURLLoop env username password [] pa = (None, pa)"
| "ldapURLLoop env username password (u # rest) pa =
     (case bindPatternLoop env username password u (bindPattern pa) pa of
        (Some ret, pa') \<Rightarrow> (Some ret, pa')
      | (None, pa') \<Rightarrow> ldapURLLoop env username password rest pa')"

definition passwordAuthenticate ::
    "('e, 'st) authEnv \<Rightarrow> string \<Rightarrow> string \<Rightarrow> 'st PasswordAuthenticator
       \<Rightarrow> (bool \<times> 'e option) \<times> 'st PasswordAuthenticator" where
  "passwordAuthenticate env username password pa =
     (case ldapURLLoop env username password (ldapURL pa) pa of
        (Some ret, pa') \<Rightarrow> (ret, pa')
      | (None, pa') \<Rightarrow>
          (case storage pa' of
             None \<Rightarrow>
               (case cachedCredentials pa' username of
                  Some cachedCred \<Rightarrow>
                    if Argon2CompareHashAndPassword env (Hash cachedCred) password = None
                       \<and> Expiration cachedCred - timeNow env > 0
                    then ((True, None), pa')
                    else ((False, None), pa')
                | None \<Rightarrow> ((False, None), pa'))
           | Some st \<Rightarrow>
               (case GetSigned env st username passwordDataType of
                  ((ok, hash, err), st') \<Rightarrow>
                    if err \<noteq> None then ((False, None), pa' \<lparr>storage := Some st'\<rparr>)
                    else if ok \<and> Argon2CompareHashAndPassword env hash password = None
                    then ((True, None), pa' \<lparr>storage := Some st'\<rparr>)
                    else ((False, None), pa' \<lparr>storage := Some st'\<rparr>))))"

section \<open>Properties of the event recorder\<close>

subsection \<open>Lifetime quantization\<close>

lemma div_between:
  fixes n :: nat
  assumes "q * d \<le> n" and "n < q * d + d"
  shows "n div d = q"
  using assms by (metis div_nat_eqI mult.commute mult_Suc_right add.commute)

lemma hours_at_top:
  fixes n :: nat
  assumes "4294967236 \<le> n" and "n < 4294967296"
  shows "(n + 60) div 3600 = 1193046" and "n div 3600 = 1193046"
  using assms by (auto intro!: div_between)

text \<open>
  Claim C1. The recorded lifetime follows the rule of section 4.2 exactly: for a lifetime
  of \<open>s\<close> whole seconds, from 3600 on the value is \<open>hPlus * 3600\<close> when
  \<open>hPlus = (s + 60) / 3600\<close> exceeds \<open>h = s / 3600\<close> and \<open>s\<close> otherwise; from 60 on the same
  with minutes and a margin of one second; below 60 it is \<open>s\<close>. The wrap-around of the
  \<open>uint32\<close> addition changes nothing: in the last 60 values of the type neither the wrapped
  nor the unbounded sum reaches the next hour.
\<close>

theorem quantizeLifetime_follows_spec:
  "unat (quantizeLifetime s) = spec_quantize (unat s)"
proof -
  define n where "n = unat s"
  have nlt: "n < 4294967296"
    unfolding n_def using unsigned_less [of s, where ?'a = nat] by simp
  show ?thesis
  proof (cases "n + 60 < 4294967296")
    case True
    have p60: "unat (s + 60) = n + 60"
      using True by (simp add: unat_word_ariths n_def)
    have p1: "unat (s + 1) = n + 1"
      using True by (simp add: unat_word_ariths n_def)
    have "((n + 60) div 3600) * 3600 \<le> n + 60" by simp
    then have m1: "unat (((s + 60) div 3600) * 3600) = ((n + 60) div 3600) * 3600"
      using True p60 by (simp add: unat_word_ariths unat_div)
    have "((n + 1) div 60) * 60 \<le> n + 1" by simp
    then have m2: "unat (((s + 1) div 60) * 60) = ((n + 1) div 60) * 60"
      using True p1 by (simp add: unat_word_ariths unat_div)
    show ?thesis
      using p60 p1 m1 m2
      by (simp add: quantizeLifetime_def spec_quantize_def Let_def word_le_nat_alt
          word_less_nat_alt unat_div n_def [symmetric])
  next
    case False
    then have lo: "4294967236 \<le> n" by simp
    have p60: "unat (s + 60) = n + 60 - 4294967296"
      using lo nlt by (simp add: unat_word_ariths n_def mod_if)
    then have small: "unat (s + 60) div 3600 = 0"
      using nlt by simp
    show ?thesis
      using hours_at_top [OF lo nlt] small lo
      by (simp add: quantizeLifetime_def spec_quantize_def Let_def word_le_nat_alt
          word_less_nat_alt unat_div n_def [symmetric])
  qed
qed

text \<open>
  Claim C4, as stated: 59 is recorded as 59, 60 as 60, 61 as 120, 3600 as 3600, 3601 as
  3601 and 3550 as 3600. Two of the six fail. 61 is in the minute branch with
  \<open>61 / 60 = 62 / 60 = 1\<close>, so it stays 61; 3550 is below 3600, so the hour branch is never
  entered, and \<open>3550 / 60 = 3551 / 60 = 59\<close>, so it stays 3550.
\<close>

theorem quantize_examples_counterexample:
  "quantizeLifetime 61 \<noteq> 120 \<and> quantizeLifetime 3550 \<noteq> 3600"
  by (simp add: quantizeLifetime_def)

text \<open>
  Claim C4, amended: 59 is recorded as 59, 60 as 60, 61 as 61, 3600 as 3600, 3601 as 3601
  and 3550 as 3550. A value is rounded up only when it is within the margin below the next
  unit: 119 is recorded as 120, 3599 as 3600 (by the minute rule) and 7140 as 7200.
\<close>

theorem quantize_examples:
  "quantizeLifetime 59 = 59 \<and> quantizeLifetime 60 = 60 \<and> quantizeLifetime 61 = 61 \<and>
   quantizeLifetime 3600 = 3600 \<and> quantizeLifetime 3601 = 3601 \<and>
   quantizeLifetime 3550 = 3550 \<and>
   quantizeLifetime 119 = 120 \<and> quantizeLifetime 3599 = 3600 \<and> quantizeLifetime 7140 = 7200"
  by (simp add: quantizeLifetime_def)

subsection \<open>Loading, saving and construction\<close>

text \<open>
  Claim C5. When the history file is absent, \<open>loadEvents\<close> returns an empty map with an
  error that \<open>os.IsNotExist\<close> recognises, and \<open>newEventRecorder\<close> succeeds with an empty
  map. When the file is there and cannot be decoded, \<open>loadEvents\<close> returns the decoding
  error, which \<open>os.IsNotExist\<close> does not recognise (nor does it recognise the other failure
  of opening), and \<open>newEventRecorder\<close> returns that error and no recorder.
\<close>

theorem newEventRecorder_load_failures:
  "(fs name = NotExist \<longrightarrow>
      loadEvents fs name now heap = ((Some [], Some ErrNotExist), heap) \<and>
      (\<exists>s. newEventRecorder fs name now = Inr s \<and> eventsMap s = []))
   \<and> (fs name = File perms Garbage \<longrightarrow>
      loadEvents fs name now heap = ((None, Some ErrDecode), heap) \<and>
      newEventRecorder fs name now = Inl ErrDecode)
   \<and> os_IsNotExist ErrNotExist \<and> \<not> os_IsNotExist ErrDecode \<and> \<not> os_IsNotExist ErrPermission"
  by (simp add: loadEvents_def os_Open_def newEventRecorder_def os_IsNotExist_def
      gob_Decode_def)

theorem newEventRecorder_load_failures_witness:
  "(loadEvents (\<lambda>_. NotExist) ''events'' 0 (emptyCells, 0)
      = ((Some [], Some ErrNotExist), (emptyCells, 0)) \<and>
    (\<exists>s. newEventRecorder (\<lambda>_. NotExist) ''events'' 0 = Inr s \<and> eventsMap s = []))
   \<and> (loadEvents (\<lambda>_. File 420 Garbage) ''events'' 0 (emptyCells, 0)
      = ((None, Some ErrDecode), (emptyCells, 0)) \<and>
      newEventRecorder (\<lambda>_. File 420 Garbage) ''events'' 0 = Inl ErrDecode)"
  using newEventRecorder_load_failures [of "\<lambda>_. NotExist" "''events''" 0 "(emptyCells, 0)"]
    newEventRecorder_load_failures [of "\<lambda>_. File 420 Garbage" "''events''" 0 "(emptyCells, 0)" 420]
  by simp

text \<open>
  Claim C8, as stated: the file is written with owner read and write, group read, and no
  access for others. It fails: \<open>filePerms\<close> has \<open>S_IROTH\<close> set, others may read the file.
\<close>

theorem filePerms_counterexample:
  "filePerms AND (S_IROTH OR S_IWOTH OR S_IXOTH) \<noteq> 0"
  by (simp add: filePerms_def S_IRUSR_def S_IWUSR_def S_IRGRP_def S_IROTH_def S_IWOTH_def
      S_IXOTH_def)

text \<open>
  Claim C8, amended: the file is written with the permission bits 0644, that is owner read
  and write, group read only and others read only; \<open>saveEvents\<close> on a path that can be
  written leaves there a file with these bits and the encoded map.
\<close>

theorem saveEvents_filePerms:
  "filePerms = 0x1A4 \<and>
   filePerms AND (S_IRUSR OR S_IWUSR) = S_IRUSR OR S_IWUSR \<and>
   filePerms AND (S_IRGRP OR S_IWGRP) = S_IRGRP \<and>
   filePerms AND (S_IROTH OR S_IWOTH OR S_IXOTH) = S_IROTH \<and>
   (fs name \<noteq> Denied \<longrightarrow>
      saveEvents name em fs = (None, fs (name := File filePerms (Gob em))))"
  by (cases "fs name")
    (simp_all add: filePerms_def S_IRUSR_def S_IWUSR_def S_IRGRP_def S_IROTH_def S_IWGRP_def
      S_IWOTH_def S_IXOTH_def saveEvents_def fsutil_CreateRenamingWriter_def writeAndClose_def
      gob_Encode_def)

theorem saveEvents_filePerms_witness:
  "saveEvents ''events'' [] (\<lambda>_. NotExist) = (None, (\<lambda>_. NotExist) (''events'' := File 0x1A4 (Gob [])))"
  using saveEvents_filePerms [of "\<lambda>_. NotExist" "''events''" "[]"]
  by simp

subsection \<open>The loop\<close>

text \<open>
  Claim C9. An SSH certificate with an empty list of principals makes the iteration that
  receives it panic: \<open>cert.ValidPrincipals[0]\<close> is read with no check, the index is out of
  range, and this holds in every state of the loop.
\<close>

theorem eventLoop_step_empty_principals:
  "eventLoop_step r (SshCert (cert \<lparr>ValidPrincipals := []\<rparr>)) s = Some (Inl IndexOutOfRange)"
  by (simp add: eventLoop_step_def)

subsection \<open>Chains in the heap\<close>

lemma chain_Nil [simp]: "chain f c p [] = (p = None)"
  by (simp add: chain_def)

lemma chain_Cons [simp]: "chain f c p (a # as) = (p = Some a \<and> chain f c (f (c a)) as)"
  by (simp add: chain_def)

lemma path_append: "path f c p (as @ bs) q = (\<exists>r. path f c p as r \<and> path f c r bs q)"
  by (induction as arbitrary: p) auto

lemma path_cong: "(\<And>a. a \<in> set as \<Longrightarrow> f (c' a) = f (c a)) \<Longrightarrow> path f c' p as q = path f c p as q"
  by (induction as arbitrary: p) auto

lemma chain_cong: "(\<And>a. a \<in> set as \<Longrightarrow> f (c' a) = f (c a)) \<Longrightarrow> chain f c' p as = chain f c p as"
  unfolding chain_def by (rule path_cong)

lemma chain_unique: "chain f c p as \<Longrightarrow> chain f c p bs \<Longrightarrow> as = bs"
proof (induction as arbitrary: p bs)
  case Nil
  then show ?case by (cases bs) auto
next
  case (Cons a as)
  then show ?case by (cases bs) auto
qed

lemma chain_head_fresh:
  assumes "chain f c (f (c a)) as"
  shows "a \<notin> set as"
proof
  assume "a \<in> set as"
  then obtain xs ys where as: "as = xs @ a # ys" by (auto simp: in_set_conv_decomp)
  with assms have "\<exists>r. path f c (f (c a)) xs r \<and> path f c r (a # ys) None"
    by (simp add: chain_def path_append)
  then have "chain f c (f (c a)) ys" by (auto simp: chain_def)
  with assms have "as = ys" by (auto intro: chain_unique)
  with as show False by simp
qed

lemma chain_distinct: "chain f c p as \<Longrightarrow> distinct as"
  by (induction as arbitrary: p) (auto dest: chain_head_fresh)

lemma chain_snoc:
  assumes "chain f c p (xs @ [a])"
    and "\<And>b. b \<in> set xs \<Longrightarrow> f (c' b) = f (c b)"
  shows "path f c' p (xs @ [a]) (f (c' a))"
proof -
  from assms(1) have "path f c p xs (Some a)"
    by (auto simp: chain_def path_append)
  moreover have "path f c' p xs (Some a) = path f c p xs (Some a)"
    by (rule path_cong) (rule assms(2))
  ultimately have "path f c' p xs (Some a)" by simp
  then show ?thesis by (auto simp: path_append)
qed

lemma linked_Nil [simp]: "linked c l [] = (oldest l = None \<and> newest l = None)"
  by (simp add: linked_def)

lemma linked_ends:
  assumes "linked c l as" and "as \<noteq> []"
  shows "oldest l = Some (hd as)" and "newest l = Some (last as)"
proof -
  from assms(2) obtain a xs where "as = a # xs" by (cases as) auto
  with assms(1) show "oldest l = Some (hd as)" by (simp add: linked_def)
  from assms(2) obtain ys b where "as = ys @ [b]" by (cases as rule: rev_cases) auto
  with assms(1) show "newest l = Some (last as)" by (simp add: linked_def)
qed

lemma linked_distinct: "linked c l as \<Longrightarrow> distinct as"
  by (auto simp: linked_def dest: chain_distinct)

lemma linkNewest_linked:
  assumes lk: "linked c l as"
    and below: "\<And>a. a \<in> set as \<Longrightarrow> a < n"
    and res: "linkNewest ev (l, c, n) = (l', c', n')"
  shows "n' = Suc n"
    and "linked c' l' (as @ [n])"
    and "EventType (c' n) = ev"
    and "\<And>b. b \<noteq> n \<Longrightarrow> EventType (c' b) = EventType (c b)"
    and "\<And>b. b \<notin> set as \<Longrightarrow> b \<noteq> n \<Longrightarrow> c' b = c b"
proof -
  show "n' = Suc n" using res by (simp add: linkNewest_def Let_def)
  have main: "linked c' l' (as @ [n]) \<and> EventType (c' n) = ev \<and>
        (\<forall>b. b \<noteq> n \<longrightarrow> EventType (c' b) = EventType (c b)) \<and>
        (\<forall>b. b \<notin> set as \<longrightarrow> b \<noteq> n \<longrightarrow> c' b = c b)"
  proof (cases as rule: rev_cases)
    case Nil
    with lk have "oldest l = None" "newest l = None" by simp_all
    with res Nil show ?thesis
      by (auto simp: linkNewest_def Let_def linked_def)
  next
    case (snoc xs a)
    from lk snoc have old: "oldest l = Some (hd as)" and new: "newest l = Some a"
      using linked_ends [OF lk] by simp_all
    from below snoc have an: "a \<noteq> n" by auto
    from below have nfresh: "n \<notin> set as" by auto
    from linked_distinct [OF lk] snoc have axs: "a \<notin> set xs" by simp
    define c1 where "c1 = c (n := \<lparr>EventType = ev, older = Some a, newer = None\<rparr>)"
    define c2 where "c2 = c1 (a := (c1 a) \<lparr>newer := Some n\<rparr>)"
    from res old new have l': "l' = l \<lparr>newest := Some n\<rparr>" and c': "c' = c2"
      by (auto simp: linkNewest_def Let_def c1_def c2_def)
    have "chain newer c (oldest l) (xs @ [a])" using lk snoc by (simp add: linked_def)
    then have "path newer c2 (oldest l) (xs @ [a]) (newer (c2 a))"
    proof (rule chain_snoc)
      fix b assume "b \<in> set xs"
      with axs nfresh snoc show "newer (c2 b) = newer (c b)"
        by (auto simp: c2_def c1_def)
    qed
    moreover have "newer (c2 a) = Some n" by (simp add: c2_def)
    moreover have "newer (c2 n) = None" using an by (simp add: c2_def c1_def)
    ultimately have fw: "chain newer c2 (oldest l) (as @ [n])"
      using snoc by (simp add: chain_def path_append)
    have "chain older c2 (Some a) (rev as) = chain older c (Some a) (rev as)"
    proof (rule chain_cong)
      fix b assume "b \<in> set (rev as)"
      with nfresh show "older (c2 b) = older (c b)"
        by (auto simp: c2_def c1_def)
    qed
    moreover have "chain older c (Some a) (rev as)" using lk new by (simp add: linked_def)
    moreover have "older (c2 n) = Some a" using an by (simp add: c2_def c1_def)
    ultimately have bw: "chain older c2 (Some n) (rev (as @ [n]))" by simp
    have "EventType (c2 n) = ev" using an by (simp add: c2_def c1_def)
    moreover have "\<forall>b. b \<noteq> n \<longrightarrow> EventType (c2 b) = EventType (c b)"
      by (simp add: c2_def c1_def)
    moreover have "\<forall>b. b \<notin> set as \<longrightarrow> b \<noteq> n \<longrightarrow> c2 b = c b"
      using snoc by (simp add: c2_def c1_def)
    ultimately show ?thesis
      using fw bw by (simp add: l' c' linked_def)
  qed
  from main show "linked c' l' (as @ [n])" by simp
  from main show "EventType (c' n) = ev" by simp
  from main show "\<And>b. b \<noteq> n \<Longrightarrow> EventType (c' b) = EventType (c b)" by simp
  from main show "\<And>b. b \<notin> set as \<Longrightarrow> b \<noteq> n \<Longrightarrow> c' b = c b" by simp
qed

lemma linked_cong:
  assumes "\<And>a. a \<in> set as \<Longrightarrow> c' a = c a"
  shows "linked c' l as = linked c l as"
proof -
  have "chain newer c' (oldest l) as = chain newer c (oldest l) as"
    by (rule chain_cong) (simp add: assms)
  moreover have "chain older c' (newest l) (rev as) = chain older c (newest l) (rev as)"
    by (rule chain_cong) (simp add: assms)
  ultimately show ?thesis by (simp add: linked_def)
qed

lemma records_cong:
  "(\<And>a. a \<in> set as \<Longrightarrow> EventType (c' a) = EventType (c a)) \<Longrightarrow> records c' as = records c as"
  by (simp add: records_def)

lemma recordEvent_parts:
  assumes "linkNewest (makeEvent ls ssh x509 now) (listOf (eventsMap sr) u, cells sr, nextAddr sr)
             = (l', c', n')"
  shows "map_of (eventsMap (recordEvent u ls ssh x509 now sr)) = (map_of (eventsMap sr)) (u \<mapsto> l')"
    and "cells (recordEvent u ls ssh x509 now sr) = c'"
    and "nextAddr (recordEvent u ls ssh x509 now sr) = n'"
    and "distinct (map fst (eventsMap sr)) \<Longrightarrow>
           distinct (map fst (eventsMap (recordEvent u ls ssh x509 now sr)))"
proof -
  have main: "map_of (eventsMap (recordEvent u ls ssh x509 now sr)) = (map_of (eventsMap sr)) (u \<mapsto> l') \<and>
    cells (recordEvent u ls ssh x509 now sr) = c' \<and>
    nextAddr (recordEvent u ls ssh x509 now sr) = n' \<and>
    (distinct (map fst (eventsMap sr)) \<longrightarrow>
       distinct (map fst (eventsMap (recordEvent u ls ssh x509 now sr))))"
  proof (cases "map_of (eventsMap sr) u")
    case None
    with assms show ?thesis
      by (simp add: recordEvent_def listOf_def makeEvent_def Let_def update_conv' distinct_update)
  next
    case (Some l)
    with assms show ?thesis
      by (simp add: recordEvent_def listOf_def makeEvent_def Let_def update_conv' distinct_update)
  qed
  from main show "map_of (eventsMap (recordEvent u ls ssh x509 now sr)) = (map_of (eventsMap sr)) (u \<mapsto> l')"
    by simp
  from main show "cells (recordEvent u ls ssh x509 now sr) = c'" by simp
  from main show "nextAddr (recordEvent u ls ssh x509 now sr) = n'" by simp
  from main show "distinct (map fst (eventsMap sr)) \<Longrightarrow>
           distinct (map fst (eventsMap (recordEvent u ls ssh x509 now sr)))" by simp
qed

lemma wellFormed_listOf: "wellFormed sr L \<Longrightarrow> linked (cells sr) (listOf (eventsMap sr) u) (L u)"
  unfolding wellFormed_def listOf_def
  by (cases "map_of (eventsMap sr) u") (auto dest: spec [of _ u])

lemma recordEvent_wellFormed:
  assumes wf: "wellFormed sr L"
  shows "wellFormed (recordEvent u ls ssh x509 now sr) (L (u := L u @ [nextAddr sr]))"
    and "nextAddr (recordEvent u ls ssh x509 now sr) = Suc (nextAddr sr)"
    and "EventType (cells (recordEvent u ls ssh x509 now sr) (nextAddr sr)) = makeEvent ls ssh x509 now"
    and "\<And>b. b \<noteq> nextAddr sr \<Longrightarrow>
           EventType (cells (recordEvent u ls ssh x509 now sr) b) = EventType (cells sr b)"
proof -
  let ?sr' = "recordEvent u ls ssh x509 now sr"
  let ?n = "nextAddr sr"
  obtain l' c' n' where res:
    "linkNewest (makeEvent ls ssh x509 now) (listOf (eventsMap sr) u, cells sr, nextAddr sr) = (l', c', n')"
    by (cases "linkNewest (makeEvent ls ssh x509 now) (listOf (eventsMap sr) u, cells sr, nextAddr sr)") auto
  note parts = recordEvent_parts [OF res]
  have lk: "linked (cells sr) (listOf (eventsMap sr) u) (L u)"
    by (rule wellFormed_listOf [OF wf])
  have below: "\<And>v a. a \<in> set (L v) \<Longrightarrow> a < ?n"
    using wf by (auto simp: wellFormed_def)
  note ln = linkNewest_linked [OF lk below res]
  show "nextAddr ?sr' = Suc ?n" using parts(3) ln(1) by simp
  show "EventType (cells ?sr' ?n) = makeEvent ls ssh x509 now" using parts(2) ln(3) by simp
  show "\<And>b. b \<noteq> ?n \<Longrightarrow> EventType (cells ?sr' b) = EventType (cells sr b)"
    using parts(2) ln(4) by simp
  have disj: "\<And>v w. v \<noteq> w \<Longrightarrow> set (L v) \<inter> set (L w) = {}"
    using wf by (auto simp: wellFormed_def)
  have "distinct (map fst (eventsMap ?sr'))"
    using wf parts(4) by (simp add: wellFormed_def)
  moreover have "\<forall>v. case map_of (eventsMap ?sr') v of
                   None \<Rightarrow> (L (u := L u @ [?n])) v = []
                 | Some l \<Rightarrow> linked (cells ?sr') l ((L (u := L u @ [?n])) v)"
  proof
    fix v
    show "case map_of (eventsMap ?sr') v of
            None \<Rightarrow> (L (u := L u @ [?n])) v = []
          | Some l \<Rightarrow> linked (cells ?sr') l ((L (u := L u @ [?n])) v)"
    proof (cases "v = u")
      case True
      then show ?thesis using parts(1,2) ln(2) by simp
    next
      case False
      show ?thesis
      proof (cases "map_of (eventsMap sr) v")
        case None
        with wf have "L v = []" by (auto simp: wellFormed_def dest: spec [of _ v])
        with None False show ?thesis using parts(1) by simp
      next
        case (Some lv)
        with wf have lkv: "linked (cells sr) lv (L v)"
          by (auto simp: wellFormed_def dest: spec [of _ v])
        have "linked c' lv (L v) = linked (cells sr) lv (L v)"
        proof (rule linked_cong)
          fix a assume a: "a \<in> set (L v)"
          with disj [OF False] have "a \<notin> set (L u)" by auto
          moreover from a below have "a \<noteq> ?n" by fastforce
          ultimately show "c' a = cells sr a" by (simp add: ln(5))
        qed
        with lkv Some False show ?thesis using parts(1,2) by simp
      qed
    qed
  qed
  moreover have "\<forall>v w. v \<noteq> w \<longrightarrow> set ((L (u := L u @ [?n])) v) \<inter> set ((L (u := L u @ [?n])) w) = {}"
  proof (intro allI impI)
    fix v w :: string
    assume vw: "v \<noteq> w"
    from vw disj [OF vw] below [of ?n v] below [of ?n w]
    show "set ((L (u := L u @ [?n])) v) \<inter> set ((L (u := L u @ [?n])) w) = {}"
      by auto
  qed
  moreover have "\<forall>v. \<forall>a \<in> set ((L (u := L u @ [?n])) v). a < nextAddr ?sr'"
    using below parts(3) ln(1) by (auto simp: less_Suc_eq)
  ultimately show "wellFormed ?sr' (L (u := L u @ [?n]))"
    unfolding wellFormed_def by blast
qed

lemma walkOlder_chain:
  "chain older c p as \<Longrightarrow> walkOlder c p acc = Some (acc @ records c as)"
proof (induction as arbitrary: p acc)
  case Nil
  then show ?case by (simp add: walkOlder.simps records_def)
next
  case (Cons a as)
  then have p: "p = Some a" and rest: "chain older c (older (c a)) as" by simp_all
  have "walkOlder c p acc = walkOlder c (older (c a)) (acc @ [EventType (c a)])"
    by (subst walkOlder.simps) (simp add: p)
  also have "\<dots> = Some ((acc @ [EventType (c a)]) @ records c as)"
    by (rule Cons.IH [OF rest])
  finally show ?case by (simp add: records_def)
qed

lemma linked_end_pointers:
  assumes "linked c l as" and "as \<noteq> []"
  shows "older (c (hd as)) = None" and "newer (c (last as)) = None"
proof -
  from assms(2) obtain xs a where as: "as = xs @ [a]" by (cases as rule: rev_cases) auto
  from assms(1) have "chain newer c (oldest l) (xs @ [a])" by (simp add: linked_def as)
  then show "newer (c (last as)) = None" by (auto simp: chain_def path_append as)
  from assms(2) obtain b ys where as': "as = b # ys" by (cases as) auto
  from assms(1) have "chain older c (newest l) (rev ys @ [b])" by (simp add: linked_def as')
  then show "older (c (hd as)) = None" by (auto simp: chain_def path_append as')
qed

lemma recordEvents_wellFormed:
  assumes "wellFormed sr L"
  shows "wellFormed (recordEvents u ops sr)
           (L (u := L u @ [nextAddr sr ..< nextAddr sr + length ops])) \<and>
         records (cells (recordEvents u ops sr)) (L u @ [nextAddr sr ..< nextAddr sr + length ops])
           = records (cells sr) (L u) @ recorded ops"
  using assms
proof (induction ops arbitrary: sr L)
  case Nil
  then show ?case by (simp add: recorded_def)
next
  case (Cons op ops)
  obtain ls ssh x509 now where op: "op = (ls, ssh, x509, now)" by (cases op) auto
  let ?n = "nextAddr sr"
  let ?sr1 = "recordEvent u ls ssh x509 now sr"
  let ?L1 = "L (u := L u @ [?n])"
  note re = recordEvent_wellFormed [OF Cons.prems, where u = u and ls = ls and ssh = ssh
      and ?x509.0 = x509 and now = now]
  have fresh: "?n \<notin> set (L u)" using Cons.prems by (auto simp: wellFormed_def)
  have rec1: "records (cells ?sr1) (L u @ [?n]) = records (cells sr) (L u) @ [makeEvent ls ssh x509 now]"
  proof -
    have "\<And>x. x \<in> set (L u) \<Longrightarrow> EventType (cells ?sr1 x) = EventType (cells sr x)"
      using re(4) fresh by metis
    then show ?thesis using re(3) by (simp add: records_def)
  qed
  have "[?n ..< ?n + Suc (length ops)] = ?n # [Suc ?n ..< ?n + Suc (length ops)]"
    by (rule upt_conv_Cons) simp
  then have upt: "[?n] @ [Suc ?n ..< Suc ?n + length ops] = [?n ..< ?n + length (op # ops)]"
    by simp
  let ?X = "[nextAddr ?sr1 ..< nextAddr ?sr1 + length ops]"
  have ih: "wellFormed (recordEvents u ops ?sr1) (?L1 (u := ?L1 u @ ?X)) \<and>
      records (cells (recordEvents u ops ?sr1)) (?L1 u @ ?X)
        = records (cells ?sr1) (?L1 u) @ recorded ops"
    by (rule Cons.IH [OF re(1)])
  have L1u: "?L1 u = L u @ [?n]" by simp
  have upd: "?L1 (u := ?L1 u @ ?X) = L (u := L u @ [?n] @ ?X)" by simp
  have X: "[?n] @ ?X = [?n ..< ?n + length (op # ops)]"
    using upt by (simp only: re(2))
  have "wellFormed (recordEvents u ops ?sr1) (L (u := L u @ [?n ..< ?n + length (op # ops)]))"
    using ih unfolding upd X by simp
  moreover have "records (cells (recordEvents u ops ?sr1)) (L u @ [?n ..< ?n + length (op # ops)])
      = records (cells sr) (L u) @ recorded (op # ops)"
  proof -
    have "records (cells (recordEvents u ops ?sr1)) ((L u @ [?n]) @ ?X)
        = records (cells ?sr1) (L u @ [?n]) @ recorded ops"
      using ih unfolding L1u by simp
    then show ?thesis
      unfolding rec1 using X by (simp add: recorded_def op)
  qed
  ultimately show ?case unfolding op recordEvents.simps by blast
qed

lemma wellFormed_emptyRecorder: "wellFormed (emptyRecorder name) (\<lambda>_. [])"
  by (simp add: wellFormed_def emptyRecorder_def)

text \<open>
  Claim C7. After \<open>N\<close> calls of \<open>recordEvent\<close> for one user whose history was empty, in
  a well-formed recorder (other users may have histories), the user has a chain of exactly
  \<open>N\<close> distinct nodes: \<open>oldest\<close> and \<open>newest\<close> are its two ends, the oldest node has no
  older neighbour and the newest no newer one, the nodes hold the \<open>N\<close> records in the order
  of the calls, and the walk of \<open>getEventsList\<close> from \<open>newest\<close> along \<open>older\<close> returns, with
  these records in reverse order.
\<close>

theorem recordEvents_history:
  assumes wf: "wellFormed sr L" and empty: "L username = []"
  shows "\<exists>as. length as = length ops \<and>
           linked (cells (recordEvents username ops sr))
             (listOf (eventsMap (recordEvents username ops sr)) username) as \<and>
           distinct as \<and>
           (as \<noteq> [] \<longrightarrow>
              oldest (listOf (eventsMap (recordEvents username ops sr)) username) = Some (hd as) \<and>
              newest (listOf (eventsMap (recordEvents username ops sr)) username) = Some (last as) \<and>
              older (cells (recordEvents username ops sr) (hd as)) = None \<and>
              newer (cells (recordEvents username ops sr) (last as)) = None) \<and>
           records (cells (recordEvents username ops sr)) as = recorded ops \<and>
           walkOlder (cells (recordEvents username ops sr))
             (newest (listOf (eventsMap (recordEvents username ops sr)) username)) []
           = Some (rev (recorded ops))"
proof -
  let ?sr' = "recordEvents username ops sr"
  let ?l = "listOf (eventsMap ?sr') username"
  let ?as = "[nextAddr sr ..< nextAddr sr + length ops]"
  from recordEvents_wellFormed [OF wf, where u = username and ops = ops] empty
  have wf': "wellFormed ?sr' (L (username := ?as))"
    and recs: "records (cells ?sr') ?as = recorded ops"
    by (simp_all add: records_def)
  from wellFormed_listOf [OF wf', of username]
  have lk: "linked (cells ?sr') ?l ?as" by simp
  have "chain older (cells ?sr') (newest ?l) (rev ?as)" using lk by (simp add: linked_def)
  from walkOlder_chain [OF this, of "[]"]
  have "walkOlder (cells ?sr') (newest ?l) [] = Some (records (cells ?sr') (rev ?as))"
    by simp
  moreover have "records (cells ?sr') (rev ?as) = rev (records (cells ?sr') ?as)"
    by (simp add: records_def rev_map)
  ultimately have walk: "walkOlder (cells ?sr') (newest ?l) [] = Some (rev (recorded ops))"
    using recs by simp
  have ends: "?as \<noteq> [] \<longrightarrow> oldest ?l = Some (hd ?as) \<and> newest ?l = Some (last ?as) \<and>
      older (cells ?sr' (hd ?as)) = None \<and> newer (cells ?sr' (last ?as)) = None"
    using linked_ends [OF lk] linked_end_pointers [OF lk] by blast
  have "length ?as = length ops" by simp
  with lk linked_distinct [OF lk] ends recs walk show ?thesis by blast
qed

theorem recordEvents_history_witness:
  "walkOlder
     (cells (recordEvents ''alice'' [(3599, True, False, 100), (61, False, True, 200)]
               (emptyRecorder ''events'')))
     (newest (listOf (eventsMap (recordEvents ''alice'' [(3599, True, False, 100), (61, False, True, 200)]
               (emptyRecorder ''events''))) ''alice'')) []
   = Some [\<lparr>CreateTime = 200, LifetimeSeconds = 61, Ssh = False, X509 = True\<rparr>,
           \<lparr>CreateTime = 100, LifetimeSeconds = 3600, Ssh = True, X509 = False\<rparr>]"
proof -
  have e: "(\<lambda>_. []) ''alice'' = ([] :: addr list)" by simp
  from recordEvents_history [OF wellFormed_emptyRecorder [of "''events''"] e,
      where ops = "[(3599, True, False, 100), (61, False, True, 200)]"
        and username = "''alice''"]
  show ?thesis
    by (elim exE conjE) (simp add: recorded_def makeEvent_def quantizeLifetime_def)
qed

subsection \<open>Expiration\<close>

lemma expireList_None: "expireList m None st = Some st"
  by (subst expireList.simps) simp

lemma expireList_fresh:
  "m \<le> CreateTime (EventType (c a)) \<Longrightarrow> expireList m (Some a) (l, c, ch) = Some (l, c, ch)"
  by (subst expireList.simps) simp

lemma expireList_stale_last:
  "CreateTime (EventType (c a)) < m \<Longrightarrow> newer (c a) = None \<Longrightarrow>
   expireList m (Some a) (l, c, ch) = Some (l \<lparr>oldest := None, newest := None\<rparr>, c, True)"
  by (subst expireList.simps) (simp add: Let_def expireList_None not_le [symmetric])

lemma expireList_stale_more:
  "CreateTime (EventType (c a)) < m \<Longrightarrow> newer (c a) = Some p \<Longrightarrow>
   expireList m (Some a) (l, c, ch) =
     expireList m (newer ((c (p := (c p) \<lparr>older := None\<rparr>)) a))
       (l \<lparr>oldest := Some p\<rparr>, c (p := (c p) \<lparr>older := None\<rparr>), True)"
  by (subst expireList.simps) (auto simp: Let_def not_le [symmetric])

lemma expireList_linked:
  assumes "linked c l as"
  shows "\<exists>l' c'. expireList m (oldest l) (l, c, ch)
             = Some (l', c', ch \<or> (as \<noteq> [] \<and> CreateTime (EventType (c (hd as))) < m)) \<and>
           linked c' l' (dropWhile (\<lambda>a. CreateTime (EventType (c a)) < m) as) \<and>
           (\<forall>b. EventType (c' b) = EventType (c b)) \<and>
           (\<forall>b. b \<notin> set as \<longrightarrow> c' b = c b)"
  using assms
proof (induction as arbitrary: l c ch)
  case Nil
  then show ?case by (simp add: expireList_None)
next
  case (Cons a rest)
  note IH = Cons.IH and lk0 = Cons.prems
  from lk0 have old: "oldest l = Some a" by (simp add: linked_def)
  show ?case
  proof (cases "CreateTime (EventType (c a)) < m")
    case False
    then have "expireList m (oldest l) (l, c, ch) = Some (l, c, ch)"
      by (simp add: old expireList_fresh)
    with False lk0 show ?thesis by simp
  next
    case True
    show ?thesis
    proof (cases rest)
      case Nil
      with lk0 have "newer (c a) = None" by (simp add: linked_def)
      with True have "expireList m (oldest l) (l, c, ch)
          = Some (l \<lparr>oldest := None, newest := None\<rparr>, c, True)"
        by (simp add: old expireList_stale_last)
      with True Nil show ?thesis by simp
    next
      case (Cons p rest')
      note rest = Cons
      let ?c2 = "c (p := (c p) \<lparr>older := None\<rparr>)"
      let ?l2 = "l \<lparr>oldest := Some p\<rparr>"
      from lk0 rest have nw: "newer (c a) = Some p"
        and fw: "chain newer c (Some p) rest"
        and bw: "chain older c (newest l) (rev rest' @ [p] @ [a])"
        by (simp_all add: linked_def)
      from linked_distinct [OF lk0] rest have pa: "p \<noteq> a" and prest: "p \<notin> set rest'"
        by auto
      have step: "expireList m (oldest l) (l, c, ch) = expireList m (oldest ?l2) (?l2, ?c2, True)"
        using True nw pa by (simp add: old expireList_stale_more)
      have "chain newer ?c2 (Some p) rest = chain newer c (Some p) rest"
        by (rule chain_cong) simp
      with fw have fw2: "chain newer ?c2 (oldest ?l2) rest" by simp
      from bw have "path older c (newest l) (rev rest') (Some p)"
        by (auto simp: chain_def path_append)
      moreover have "path older ?c2 (newest l) (rev rest') (Some p)
          = path older c (newest l) (rev rest') (Some p)"
        by (rule path_cong) (use prest in auto)
      ultimately have "path older ?c2 (newest l) (rev rest') (Some p)" by simp
      then have bw2: "chain older ?c2 (newest ?l2) (rev rest)"
        by (simp add: rest chain_def path_append)
      from fw2 bw2 have lk2: "linked ?c2 ?l2 rest" by (simp add: linked_def)
      have "\<exists>l' c'. expireList m (oldest ?l2) (?l2, ?c2, True)
                 = Some (l', c', True \<or> (rest \<noteq> [] \<and> CreateTime (EventType (?c2 (hd rest))) < m)) \<and>
               linked c' l' (dropWhile (\<lambda>a. CreateTime (EventType (?c2 a)) < m) rest) \<and>
               (\<forall>b. EventType (c' b) = EventType (?c2 b)) \<and>
               (\<forall>b. b \<notin> set rest \<longrightarrow> c' b = ?c2 b)"
        by (rule IH [OF lk2])
      then obtain l' c' where res: "expireList m (oldest ?l2) (?l2, ?c2, True) = Some (l', c', True)"
        and lk: "linked c' l' (dropWhile (\<lambda>a. CreateTime (EventType (?c2 a)) < m) rest)"
        and ev: "\<forall>b. EventType (c' b) = EventType (?c2 b)"
        and fr: "\<forall>b. b \<notin> set rest \<longrightarrow> c' b = ?c2 b"
        by (auto simp del: fun_upd_apply)
      have same: "(\<lambda>a. CreateTime (EventType (?c2 a)) < m) = (\<lambda>a. CreateTime (EventType (c a)) < m)"
        by (rule ext) simp
      have "\<forall>b. EventType (c' b) = EventType (c b)" using ev by simp
      moreover have "\<forall>b. b \<notin> set (a # rest) \<longrightarrow> c' b = c b"
        using fr rest by auto
      moreover have "linked c' l' (dropWhile (\<lambda>a. CreateTime (EventType (c a)) < m) (a # rest))"
        using lk True unfolding same by simp
      ultimately show ?thesis
        using step res True by simp
    qed
  qed
qed

lemma stale_cong: "(\<And>b. EventType (c' b) = EventType (c b)) \<Longrightarrow> stale m c' = stale m c"
  by (rule ext) (simp add: stale_def)

lemma expireUsers_linked:
  assumes "distinct (map fst em)"
    and "\<And>u l. (u, l) \<in> set em \<Longrightarrow> linked c l (L u)"
    and disj: "\<And>u v. u \<noteq> v \<Longrightarrow> set (L u) \<inter> set (L v) = {}"
  shows "\<exists>em' c'. expireUsers m em c ch
             = Some (em', c', ch \<or> (\<exists>u \<in> fst ` set em. L u \<noteq> [] \<and> stale m c (hd (L u)))) \<and>
           map fst em' = map fst em \<and>
           (\<forall>u l'. (u, l') \<in> set em' \<longrightarrow> linked c' l' (dropWhile (stale m c) (L u))) \<and>
           (\<forall>b. EventType (c' b) = EventType (c b)) \<and>
           (\<forall>b. (\<forall>u \<in> fst ` set em. b \<notin> set (L u)) \<longrightarrow> c' b = c b)"
  using assms(1,2)
proof (induction em arbitrary: c ch)
  case Nil
  then show ?case by simp
next
  case (Cons e rest)
  note IH = Cons.IH and dist = Cons.prems(1) and lks = Cons.prems(2)
  obtain u l where e: "e = (u, l)" by (cases e) auto
  have lk: "linked c l (L u)" using lks [of u l] by (simp add: e)
  let ?ch1 = "ch \<or> (L u \<noteq> [] \<and> CreateTime (EventType (c (hd (L u)))) < m)"
  from expireList_linked [OF lk, of m ch]
  obtain l1 c1 where r1: "expireList m (oldest l) (l, c, ch) = Some (l1, c1, ?ch1)"
    and lk1: "linked c1 l1 (dropWhile (\<lambda>a. CreateTime (EventType (c a)) < m) (L u))"
    and ev1: "\<forall>b. EventType (c1 b) = EventType (c b)"
    and fr1: "\<forall>b. b \<notin> set (L u) \<longrightarrow> c1 b = c b"
    by (elim exE conjE) (rule that, assumption+)
  have st1: "stale m c1 = stale m c" by (rule stale_cong) (simp add: ev1)
  have unotin: "u \<notin> fst ` set rest" using dist by (auto simp: e)
  have lks1: "\<And>v lv. (v, lv) \<in> set rest \<Longrightarrow> linked c1 lv (L v)"
  proof -
    fix v lv assume in_rest: "(v, lv) \<in> set rest"
    with unotin have "v \<noteq> u" by force
    from disj [OF this] have "\<And>a. a \<in> set (L v) \<Longrightarrow> c1 a = c a"
      using fr1 by auto
    then have "linked c1 lv (L v) = linked c lv (L v)" by (rule linked_cong)
    with lks [of v lv] in_rest show "linked c1 lv (L v)" by simp
  qed
  from dist have dist': "distinct (map fst rest)" by simp
  let ?ch2 = "?ch1 \<or> (\<exists>v \<in> fst ` set rest. L v \<noteq> [] \<and> stale m c1 (hd (L v)))"
  have "\<exists>em' c'. expireUsers m rest c1 ?ch1 = Some (em', c', ?ch2) \<and>
           map fst em' = map fst rest \<and>
           (\<forall>v l'. (v, l') \<in> set em' \<longrightarrow> linked c' l' (dropWhile (stale m c1) (L v))) \<and>
           (\<forall>b. EventType (c' b) = EventType (c1 b)) \<and>
           (\<forall>b. (\<forall>v \<in> fst ` set rest. b \<notin> set (L v)) \<longrightarrow> c' b = c1 b)"
    by (rule IH [OF dist' lks1])
  then obtain em2 c2 where r2: "expireUsers m rest c1 ?ch1 = Some (em2, c2, ?ch2)"
    and keys2: "map fst em2 = map fst rest"
    and lk2: "\<forall>v l'. (v, l') \<in> set em2 \<longrightarrow> linked c2 l' (dropWhile (stale m c1) (L v))"
    and ev2: "\<forall>b. EventType (c2 b) = EventType (c1 b)"
    and fr2: "\<forall>b. (\<forall>v \<in> fst ` set rest. b \<notin> set (L v)) \<longrightarrow> c2 b = c1 b"
    by (elim exE conjE) (rule that, assumption+)
  have res: "expireUsers m (e # rest) c ch = Some ((u, l1) # em2, c2, ?ch2)"
    by (simp add: e r1 r2)
  have "\<And>a. a \<in> set (dropWhile (stale m c) (L u)) \<Longrightarrow> c2 a = c1 a"
  proof -
    fix a assume "a \<in> set (dropWhile (stale m c) (L u))"
    then have au: "a \<in> set (L u)" by (rule set_dropWhileD)
    have "\<forall>v \<in> fst ` set rest. a \<notin> set (L v)"
    proof
      fix v assume "v \<in> fst ` set rest"
      with unotin have "u \<noteq> v" by auto
      from disj [OF this] au show "a \<notin> set (L v)" by auto
    qed
    with fr2 show "c2 a = c1 a" by simp
  qed
  then have "linked c2 l1 (dropWhile (stale m c) (L u)) = linked c1 l1 (dropWhile (stale m c) (L u))"
    by (rule linked_cong)
  moreover have "(\<lambda>a. CreateTime (EventType (c a)) < m) = stale m c"
    by (rule ext) (simp add: stale_def)
  ultimately have lku: "linked c2 l1 (dropWhile (stale m c) (L u))"
    using lk1 by simp
  have A: "map fst ((u, l1) # em2) = map fst (e # rest)" using keys2 by (simp add: e)
  have B: "\<forall>v l'. (v, l') \<in> set ((u, l1) # em2) \<longrightarrow> linked c2 l' (dropWhile (stale m c) (L v))"
    using lku lk2 st1 by auto
  have C: "\<forall>b. EventType (c2 b) = EventType (c b)" using ev1 ev2 by simp
  have D: "\<forall>b. (\<forall>v \<in> fst ` set (e # rest). b \<notin> set (L v)) \<longrightarrow> c2 b = c b"
    using fr1 fr2 by (simp add: e)
  have E: "?ch2 = (ch \<or> (\<exists>v \<in> fst ` set (e # rest). L v \<noteq> [] \<and> stale m c (hd (L v))))"
    unfolding st1 by (auto simp: e stale_def)
  show ?case
    unfolding res using A B C D E by simp
qed

lemma wellFormed_entry:
  assumes "wellFormed sr L" and "(u, l) \<in> set (eventsMap sr)"
  shows "linked (cells sr) l (L u)"
proof -
  from assms have "map_of (eventsMap sr) u = Some l" by (simp add: wellFormed_def)
  with assms(1) show ?thesis by (auto simp: wellFormed_def dest: spec [of _ u])
qed

lemma wellFormed_no_entry:
  assumes "wellFormed sr L" and "u \<notin> fst ` set (eventsMap sr)"
  shows "L u = []"
proof -
  from assms(2) have "map_of (eventsMap sr) u = None" by (simp add: map_of_eq_None_iff)
  with assms(1) show ?thesis by (auto simp: wellFormed_def dest: spec [of _ u])
qed

lemma expireOldEventsAt_wellFormed:
  assumes wf: "wellFormed sr L"
  shows "\<exists>em' c'. expireOldEventsAt m sr
             = Some (\<exists>u. L u \<noteq> [] \<and> stale m (cells sr) (hd (L u)),
                     sr \<lparr>eventsMap := em', cells := c'\<rparr>) \<and>
           wellFormed (sr \<lparr>eventsMap := em', cells := c'\<rparr>) (\<lambda>u. dropWhile (stale m (cells sr)) (L u)) \<and>
           map fst em' = map fst (eventsMap sr) \<and>
           (\<forall>b. EventType (c' b) = EventType (cells sr b))"
proof -
  have dist: "distinct (map fst (eventsMap sr))" using wf by (simp add: wellFormed_def)
  have disj: "\<And>u v. u \<noteq> v \<Longrightarrow> set (L u) \<inter> set (L v) = {}"
    using wf by (simp add: wellFormed_def)
  have below: "\<And>u a. a \<in> set (L u) \<Longrightarrow> a < nextAddr sr"
    using wf by (auto simp: wellFormed_def)
  let ?ch = "False \<or> (\<exists>u \<in> fst ` set (eventsMap sr). L u \<noteq> [] \<and> stale m (cells sr) (hd (L u)))"
  have "\<exists>em' c'. expireUsers m (eventsMap sr) (cells sr) False = Some (em', c', ?ch) \<and>
           map fst em' = map fst (eventsMap sr) \<and>
           (\<forall>u l'. (u, l') \<in> set em' \<longrightarrow> linked c' l' (dropWhile (stale m (cells sr)) (L u))) \<and>
           (\<forall>b. EventType (c' b) = EventType (cells sr b)) \<and>
           (\<forall>b. (\<forall>u \<in> fst ` set (eventsMap sr). b \<notin> set (L u)) \<longrightarrow> c' b = cells sr b)"
    by (rule expireUsers_linked [OF dist wellFormed_entry [OF wf] disj])
  then obtain em' c' where r: "expireUsers m (eventsMap sr) (cells sr) False = Some (em', c', ?ch)"
    and keys: "map fst em' = map fst (eventsMap sr)"
    and lk: "\<forall>u l'. (u, l') \<in> set em' \<longrightarrow> linked c' l' (dropWhile (stale m (cells sr)) (L u))"
    and ev: "\<forall>b. EventType (c' b) = EventType (cells sr b)"
    by (elim exE conjE) (rule that, assumption+)
  have ch: "?ch = (\<exists>u. L u \<noteq> [] \<and> stale m (cells sr) (hd (L u)))"
  proof -
    have "\<And>u. L u \<noteq> [] \<Longrightarrow> u \<in> fst ` set (eventsMap sr)"
      using wellFormed_no_entry [OF wf] by blast
    then show ?thesis by blast
  qed
  have res: "expireOldEventsAt m sr
      = Some (\<exists>u. L u \<noteq> [] \<and> stale m (cells sr) (hd (L u)), sr \<lparr>eventsMap := em', cells := c'\<rparr>)"
    unfolding expireOldEventsAt_def r ch by simp
  let ?L' = "\<lambda>u. dropWhile (stale m (cells sr)) (L u)"
  have sub: "\<And>u. set (?L' u) \<subseteq> set (L u)" by (auto dest: set_dropWhileD)
  have "distinct (map fst em')" using dist keys by simp
  moreover have "\<forall>u. case map_of em' u of None \<Rightarrow> ?L' u = [] | Some l \<Rightarrow> linked c' l (?L' u)"
  proof
    fix u
    show "case map_of em' u of None \<Rightarrow> ?L' u = [] | Some l \<Rightarrow> linked c' l (?L' u)"
    proof (cases "map_of em' u")
      case None
      then have "u \<notin> fst ` set em'" by (simp add: map_of_eq_None_iff)
      then have "u \<notin> fst ` set (eventsMap sr)" using keys by (metis set_map)
      from wellFormed_no_entry [OF wf this] None show ?thesis by simp
    next
      case (Some l')
      then have "(u, l') \<in> set em'" by (rule map_of_SomeD)
      with lk Some show ?thesis by simp
    qed
  qed
  moreover have "\<forall>u v. u \<noteq> v \<longrightarrow> set (?L' u) \<inter> set (?L' v) = {}"
    using disj sub by blast
  moreover have "\<forall>u. \<forall>a \<in> set (?L' u). a < nextAddr sr"
    using below sub by blast
  moreover have "eventsMap (sr \<lparr>eventsMap := em', cells := c'\<rparr>) = em'"
    and "cells (sr \<lparr>eventsMap := em', cells := c'\<rparr>) = c'"
    and "nextAddr (sr \<lparr>eventsMap := em', cells := c'\<rparr>) = nextAddr sr"
    by simp_all
  ultimately have "wellFormed (sr \<lparr>eventsMap := em', cells := c'\<rparr>) ?L'"
    unfolding wellFormed_def by presburger
  with res keys ev show ?thesis by blast
qed

lemma expireUsers_nothing:
  assumes "\<And>u l. (u, l) \<in> set em \<Longrightarrow> linked c l (L u)"
    and "\<And>u. L u \<noteq> [] \<Longrightarrow> \<not> stale m c (hd (L u))"
  shows "expireUsers m em c ch = Some (em, c, ch)"
  using assms(1)
proof (induction em)
  case Nil
  then show ?case by simp
next
  case (Cons e rest)
  obtain u l where e: "e = (u, l)" by (cases e) auto
  have lk: "linked c l (L u)" using Cons.prems [of u l] by (simp add: e)
  have "expireList m (oldest l) (l, c, ch) = Some (l, c, ch)"
  proof (cases "L u")
    case Nil
    with lk show ?thesis by (simp add: expireList_None)
  next
    case (Cons a as)
    with lk have "oldest l = Some a" by (simp add: linked_def)
    moreover from assms(2) [of u] Cons have "m \<le> CreateTime (EventType (c a))"
      by (simp add: stale_def not_less)
    ultimately show ?thesis by (simp add: expireList_fresh)
  qed
  moreover have "expireUsers m rest c ch = Some (rest, c, ch)"
    using Cons.IH Cons.prems by simp
  ultimately show ?case by (simp add: e)
qed

lemma expireOldEventsAt_nothing:
  assumes wf: "wellFormed sr L"
    and "\<And>u. L u \<noteq> [] \<Longrightarrow> \<not> stale m (cells sr) (hd (L u))"
  shows "expireOldEventsAt m sr = Some (False, sr)"
proof -
  have "expireUsers m (eventsMap sr) (cells sr) False = Some (eventsMap sr, cells sr, False)"
    by (rule expireUsers_nothing [OF wellFormed_entry [OF wf] assms(2)])
  then show ?thesis by (simp add: expireOldEventsAt_def)
qed

lemma dropWhile_sorted_filter:
  fixes f :: "'a \<Rightarrow> 'b::linorder"
  assumes "sorted (map f xs)"
  shows "dropWhile (\<lambda>x. f x < m) xs = filter (\<lambda>x. m \<le> f x) xs"
  using assms
proof (induction xs)
  case Nil
  then show ?case by simp
next
  case (Cons x xs)
  show ?case
  proof (cases "f x < m")
    case True
    with Cons show ?thesis by simp
  next
    case False
    with Cons.prems have "\<forall>y \<in> set xs. m \<le> f y" by auto
    then have "filter (\<lambda>x. m \<le> f x) xs = xs" by simp
    with False show ?thesis by simp
  qed
qed

text \<open>
  Claim C3. In a well-formed recorder whose histories are in non-decreasing order of
  \<open>CreateTime\<close>, expiration with the cutoff \<open>C\<close> returns, and leaves a well-formed recorder
  with the same users in which the history of every user is what was there with
  \<open>CreateTime\<close> at least \<open>C\<close>, in unchanged order: the records strictly before \<open>C\<close> are
  gone, and they were a prefix from the oldest end. A user left with no record has
  \<open>oldest\<close> and \<open>newest\<close> nil. The result is true exactly when some record was
  before \<open>C\<close>, and a second call with the same cutoff returns false and changes nothing.
\<close>

theorem expireOldEventsAt_removes_stale:
  assumes wf: "wellFormed sr L"
    and srt: "\<And>u. sorted (map CreateTime (records (cells sr) (L u)))"
  shows "\<exists>changed sr'.
           expireOldEventsAt C sr = Some (changed, sr') \<and>
           wellFormed sr' (\<lambda>u. fresh C (cells sr) (L u)) \<and>
           map fst (eventsMap sr') = map fst (eventsMap sr) \<and>
           (\<forall>u. records (cells sr') (fresh C (cells sr) (L u))
                  = filter (\<lambda>e. C \<le> CreateTime e) (records (cells sr) (L u))) \<and>
           (\<forall>u. \<exists>k. fresh C (cells sr) (L u) = drop k (L u)) \<and>
           (\<forall>u. fresh C (cells sr) (L u) = [] \<longrightarrow>
                  oldest (listOf (eventsMap sr') u) = None \<and>
                  newest (listOf (eventsMap sr') u) = None) \<and>
           (changed \<longleftrightarrow> (\<exists>u. \<exists>e \<in> set (records (cells sr) (L u)). CreateTime e < C)) \<and>
           expireOldEventsAt C sr' = Some (False, sr')"
proof -
  let ?f = "\<lambda>a. CreateTime (EventType (cells sr a))"
  have srt': "\<And>u. sorted (map ?f (L u))"
    using srt by (simp add: records_def comp_def)
  have st: "stale C (cells sr) = (\<lambda>a. ?f a < C)"
    by (rule ext) (simp add: stale_def)
  have dw: "\<And>u. dropWhile (stale C (cells sr)) (L u) = fresh C (cells sr) (L u)"
    unfolding st fresh_def by (rule dropWhile_sorted_filter [OF srt'])
  from expireOldEventsAt_wellFormed [OF wf, of C]
  obtain em' c' where res: "expireOldEventsAt C sr
        = Some (\<exists>u. L u \<noteq> [] \<and> stale C (cells sr) (hd (L u)), sr \<lparr>eventsMap := em', cells := c'\<rparr>)"
    and wf0: "wellFormed (sr \<lparr>eventsMap := em', cells := c'\<rparr>) (\<lambda>u. dropWhile (stale C (cells sr)) (L u))"
    and keys: "map fst em' = map fst (eventsMap sr)"
    and ev: "\<forall>b. EventType (c' b) = EventType (cells sr b)"
    by (elim exE conjE) (rule that, assumption+)
  let ?sr' = "sr \<lparr>eventsMap := em', cells := c'\<rparr>"
  let ?L' = "\<lambda>u. fresh C (cells sr) (L u)"
  have wf': "wellFormed ?sr' ?L'" using wf0 unfolding dw .
  have recs: "\<forall>u. records (cells ?sr') (?L' u) = filter (\<lambda>e. C \<le> CreateTime e) (records (cells sr) (L u))"
    using ev by (simp add: records_def fresh_def filter_map comp_def)
  have pre: "\<forall>u. \<exists>k. ?L' u = drop k (L u)"
  proof
    fix u
    have "dropWhile (stale C (cells sr)) (L u)
        = drop (length (takeWhile (stale C (cells sr)) (L u))) (L u)"
      by (rule dropWhile_eq_drop)
    then show "\<exists>k. ?L' u = drop k (L u)" unfolding dw by blast
  qed
  have cleared: "\<forall>u. ?L' u = [] \<longrightarrow>
      oldest (listOf (eventsMap ?sr') u) = None \<and> newest (listOf (eventsMap ?sr') u) = None"
  proof (intro allI impI)
    fix u assume "?L' u = []"
    with wellFormed_listOf [OF wf', of u]
    show "oldest (listOf (eventsMap ?sr') u) = None \<and> newest (listOf (eventsMap ?sr') u) = None"
      by simp
  qed
  have ch: "(\<exists>u. L u \<noteq> [] \<and> stale C (cells sr) (hd (L u)))
      \<longleftrightarrow> (\<exists>u. \<exists>e \<in> set (records (cells sr) (L u)). CreateTime e < C)"
  proof
    assume "\<exists>u. L u \<noteq> [] \<and> stale C (cells sr) (hd (L u))"
    then obtain u where "L u \<noteq> []" and "stale C (cells sr) (hd (L u))" by blast
    then have "EventType (cells sr (hd (L u))) \<in> set (records (cells sr) (L u))"
      and "CreateTime (EventType (cells sr (hd (L u)))) < C"
      by (simp_all add: records_def stale_def)
    then show "\<exists>u. \<exists>e \<in> set (records (cells sr) (L u)). CreateTime e < C" by blast
  next
    assume "\<exists>u. \<exists>e \<in> set (records (cells sr) (L u)). CreateTime e < C"
    then obtain u a where a: "a \<in> set (L u)" and old: "?f a < C"
      by (auto simp: records_def)
    then obtain x xs where Lu: "L u = x # xs" by (cases "L u") auto
    from srt' [of u] Lu a have "?f x \<le> ?f a" by auto
    with old have "?f x < C" by simp
    with Lu have "L u \<noteq> [] \<and> stale C (cells sr) (hd (L u))"
      by (simp add: stale_def)
    then show "\<exists>u. L u \<noteq> [] \<and> stale C (cells sr) (hd (L u))" ..
  qed
  have "\<And>u. ?L' u \<noteq> [] \<Longrightarrow> \<not> stale C (cells ?sr') (hd (?L' u))"
  proof -
    fix u assume "?L' u \<noteq> []"
    then have "hd (?L' u) \<in> set (?L' u)" by (rule hd_in_set)
    then have "C \<le> ?f (hd (?L' u))" by (simp add: fresh_def)
    then show "\<not> stale C (cells ?sr') (hd (?L' u))"
      using ev by (simp add: stale_def not_less)
  qed
  then have again: "expireOldEventsAt C ?sr' = Some (False, ?sr')"
    by (rule expireOldEventsAt_nothing [OF wf'])
  from res wf' keys recs pre cleared ch again show ?thesis
    by (intro exI [of _ "\<exists>u. L u \<noteq> [] \<and> stale C (cells sr) (hd (L u))"] exI [of _ ?sr']) simp
qed

theorem expireOldEventsAt_removes_stale_witness:
  "\<exists>sr'. expireOldEventsAt 20 threeEvents = Some (True, sr') \<and>
         expireOldEventsAt 20 sr' = Some (False, sr') \<and>
         records (cells sr') [1, 2]
           = [\<lparr>CreateTime = 20, LifetimeSeconds = 60, Ssh = True, X509 = False\<rparr>,
              \<lparr>CreateTime = 30, LifetimeSeconds = 60, Ssh = False, X509 = True\<rparr>]"
proof -
  let ?ops = "[(60, True, False, 10), (60, True, False, 20), (60, False, True, 30)]
                :: (32 word \<times> bool \<times> bool \<times> int) list"
  let ?L = "(\<lambda>_. []) (''alice'' := [] @ [nextAddr (emptyRecorder ''events'') ..<
               nextAddr (emptyRecorder ''events'') + length ?ops])"
  from recordEvents_wellFormed [OF wellFormed_emptyRecorder [of "''events''"],
      where u = "''alice''" and ops = ?ops]
  have wf: "wellFormed threeEvents ?L"
    and recs: "records (cells threeEvents) (?L ''alice'') = recorded ?ops"
    by (simp_all add: threeEvents_def records_def)
  have L: "?L ''alice'' = [0, 1, 2]" by (simp add: emptyRecorder_def upt_rec)
  have srt: "\<And>u. sorted (map CreateTime (records (cells threeEvents) (?L u)))"
  proof -
    fix u
    show "sorted (map CreateTime (records (cells threeEvents) (?L u)))"
    proof (cases "u = ''alice''")
      case True
      then show ?thesis unfolding True recs by (simp add: recorded_def makeEvent_def)
    next
      case False
      then show ?thesis by (simp add: records_def)
    qed
  qed
  from expireOldEventsAt_removes_stale [OF wf srt, where C = 20]
  obtain changed sr' where r: "expireOldEventsAt 20 threeEvents = Some (changed, sr')"
    and rr: "\<forall>u. records (cells sr') (fresh 20 (cells threeEvents) (?L u))
                = filter (\<lambda>e. 20 \<le> CreateTime e) (records (cells threeEvents) (?L u))"
    and ch: "changed \<longleftrightarrow> (\<exists>u. \<exists>e \<in> set (records (cells threeEvents) (?L u)). CreateTime e < 20)"
    and again: "expireOldEventsAt 20 sr' = Some (False, sr')"
    by (elim exE conjE) (rule that, assumption+)
  have "\<exists>e \<in> set (records (cells threeEvents) (?L ''alice'')). CreateTime e < 20"
    unfolding recs by (simp add: recorded_def makeEvent_def)
  with ch have changed by blast
  have fr: "fresh 20 (cells threeEvents) (?L ''alice'') = [1, 2]"
  proof -
    have "map (\<lambda>a. EventType (cells threeEvents a)) [0, 1, 2] = recorded ?ops"
      using recs unfolding L by (simp add: records_def)
    then show ?thesis unfolding L by (simp add: fresh_def recorded_def makeEvent_def)
  qed
  from rr have "records (cells sr') (fresh 20 (cells threeEvents) (?L ''alice''))
                = filter (\<lambda>e. 20 \<le> CreateTime e) (records (cells threeEvents) (?L ''alice''))" ..
  then have "records (cells sr') [1, 2]
      = [\<lparr>CreateTime = 20, LifetimeSeconds = 60, Ssh = True, X509 = False\<rparr>,
         \<lparr>CreateTime = 30, LifetimeSeconds = 60, Ssh = False, X509 = True\<rparr>]"
    unfolding fr recs by (simp add: recorded_def makeEvent_def quantizeLifetime_def)
  with r again \<open>changed\<close> show ?thesis by simp
qed

subsection \<open>The round trip through the file\<close>

lemma threeEvents_eventsMap:
  "eventsMap threeEvents = [(''alice'', \<lparr>newest = Some 2, oldest = Some 0\<rparr>)]"
  by (simp add: threeEvents_def emptyRecorder_def recordEvent_def linkNewest_def Let_def)

lemma threeEvents_filename: "filename threeEvents = ''events''"
  by (simp add: threeEvents_def emptyRecorder_def recordEvent_def linkNewest_def Let_def)

lemma threeEvents_cells:
  "cells threeEvents 0
     = \<lparr>EventType = \<lparr>CreateTime = 10, LifetimeSeconds = 60, Ssh = True, X509 = False\<rparr>,
        older = None, newer = Some 1\<rparr>"
  "cells threeEvents (Suc 0)
     = \<lparr>EventType = \<lparr>CreateTime = 20, LifetimeSeconds = 60, Ssh = True, X509 = False\<rparr>,
        older = Some 0, newer = Some 2\<rparr>"
  "cells threeEvents 2
     = \<lparr>EventType = \<lparr>CreateTime = 30, LifetimeSeconds = 60, Ssh = False, X509 = True\<rparr>,
        older = Some 1, newer = None\<rparr>"
  by (simp_all add: threeEvents_def emptyRecorder_def recordEvent_def linkNewest_def Let_def
      quantizeLifetime_def)

lemma threeEvents_snapshot:
  "buildEventsMap (cells threeEvents) (eventsMap threeEvents) []
     = Some [(''alice'', [\<lparr>CreateTime = 30, LifetimeSeconds = 60, Ssh = False, X509 = True\<rparr>,
                           \<lparr>CreateTime = 20, LifetimeSeconds = 60, Ssh = True, X509 = False\<rparr>,
                           \<lparr>CreateTime = 10, LifetimeSeconds = 60, Ssh = True, X509 = False\<rparr>])]"
  by (simp add: threeEvents_eventsMap walkOlder.simps threeEvents_cells)

text \<open>
  Claim C2, at one input. The recorder holds three records of one user, created at the
  times 10, 20 and 30 in this order, so that \<open>oldest\<close> is the record of time 10 and the walk
  from \<open>newest\<close> reads 30, 20, 10. It is saved into an empty file system and loaded back at
  the time 2678400, 31 days after the epoch, so that the cutoff is 0 and no record is
  filtered. In the loaded recorder \<open>oldest\<close> is the record of time 30 and \<open>newest\<close> the
  record of time 10: the walk from \<open>newest\<close> reads 10, 20, 30. The snapshot lists a history
  newest first and \<open>loadEvents\<close> appends the records in the order of the list, so the
  round trip reverses the history of the user.
\<close>

theorem saveThenLoad_reverses_history:
  "walkOlder (cells threeEvents) (newest (listOf (eventsMap threeEvents) ''alice'')) []
     = Some [\<lparr>CreateTime = 30, LifetimeSeconds = 60, Ssh = False, X509 = True\<rparr>,
             \<lparr>CreateTime = 20, LifetimeSeconds = 60, Ssh = True, X509 = False\<rparr>,
             \<lparr>CreateTime = 10, LifetimeSeconds = 60, Ssh = True, X509 = False\<rparr>] \<and>
   CreateTime (EventType (cells threeEvents 0)) = 10 \<and>
   oldest (listOf (eventsMap threeEvents) ''alice'') = Some 0 \<and>
   (\<exists>em c n. saveThenLoad 2678400 (\<lambda>_. NotExist) threeEvents = Some ((Some em, None), c, n) \<and>
      walkOlder c (newest (listOf em ''alice'')) []
        = Some [\<lparr>CreateTime = 10, LifetimeSeconds = 60, Ssh = True, X509 = False\<rparr>,
                \<lparr>CreateTime = 20, LifetimeSeconds = 60, Ssh = True, X509 = False\<rparr>,
                \<lparr>CreateTime = 30, LifetimeSeconds = 60, Ssh = False, X509 = True\<rparr>] \<and>
      oldest (listOf em ''alice'') = Some 0 \<and>
      CreateTime (EventType (c 0)) = 30)"
  by (simp add: saveThenLoad_def threeEvents_snapshot threeEvents_filename threeEvents_eventsMap
      threeEvents_cells listOf_def saveEvents_def fsutil_CreateRenamingWriter_def
      writeAndClose_def gob_Encode_def loadEvents_def os_Open_def gob_Decode_def
      durationMonth_def linkNewest_def Let_def walkOlder.simps)

section \<open>Properties of the password authenticator\<close>

lemma updateOrDeletePasswordHash_nil:
  "fst (updateOrDeletePasswordHash env valid username password pa) = None"
  by (simp add: updateOrDeletePasswordHash_def split: prod.splits option.splits)

lemma bindPatternLoop_nil:
  "fst (bindPatternLoop env username password u pats pa) = Some ret \<Longrightarrow> snd ret = None"
  by (induction pats arbitrary: pa) (auto simp: Let_def case_prod_beta split: if_splits)

lemma ldapURLLoop_nil:
  "fst (ldapURLLoop env username password us pa) = Some ret \<Longrightarrow> snd ret = None"
proof (induction us arbitrary: pa)
  case Nil
  then show ?case by simp
next
  case (Cons u us)
  show ?case
  proof (cases "fst (bindPatternLoop env username password u (bindPattern pa) pa)")
    case None
    with Cons show ?thesis by (simp add: case_prod_beta)
  next
    case (Some r)
    with Cons.prems have "ret = r" by (simp add: case_prod_beta)
    with Some show ?thesis by (simp add: bindPatternLoop_nil)
  qed
qed

text \<open>
  Claim C10. \<open>passwordAuthenticate\<close> returns a nil error for every user name and password,
  whatever the LDAP servers, the hashing and the storage answer: their failures are logged
  at most, and the caller gets the boolean only.
\<close>

theorem passwordAuthenticate_nil_error:
  "snd (fst (passwordAuthenticate env username password pa)) = None"
proof (cases "fst (ldapURLLoop env username password (ldapURL pa) pa)")
  case None
  then show ?thesis
    by (simp add: passwordAuthenticate_def case_prod_beta split: option.splits)
next
  case (Some ret)
  then show ?thesis
    using ldapURLLoop_nil [OF Some]
    by (simp add: passwordAuthenticate_def case_prod_beta)
qed

end
